theory Spec2Isabelle
  imports Complex_Main
begin

section \<open>Values of the program\<close>

text \<open>
  The walker \<^verbatim>\<open>exploreFilesAsync\<close> is an async generator that starts a pool of
  cooperating \<^verbatim>\<open>workerLoop\<close> coroutines on one JavaScript event loop. Code between
  two suspension points (\<^verbatim>\<open>await\<close>, \<^verbatim>\<open>yield\<close>) runs to completion without
  interleaving, so the embedding has one transition per such segment.
\<close>

type_synonym Buffer = string

text \<open>A JavaScript number, as far as \<^verbatim>\<open>workerCount\<close> and a thrown number need it.\<close>

datatype number = Finite rat | NaN | Infinity | NegInfinity

text \<open>
  What a \<^verbatim>\<open>catch\<close> block can receive. A predicate may throw any value and the
  walker stores it as it is (the slot is declared \<^verbatim>\<open>unknown\<close>): an \<^verbatim>\<open>Error\<close>
  object carrying its message, or a primitive value. The walker tests the slot by
  truthiness (\<^verbatim>\<open>if (error)\<close>): objects are truthy; \<^verbatim>\<open>undefined\<close>, \<^verbatim>\<open>null\<close>,
  \<^verbatim>\<open>false\<close>, \<^verbatim>\<open>0\<close>, \<^verbatim>\<open>NaN\<close> and the empty string are not.
\<close>

datatype thrown =
    Error string
  | Undefined
  | Null
  | BooleanValue bool
  | NumberValue number
  | StringValue string

fun truthy :: "thrown \<Rightarrow> bool" where
  "truthy (Error message) = True"
| "truthy Undefined = False"
| "truthy Null = False"
| "truthy (BooleanValue b) = b"
| "truthy (NumberValue (Finite q)) = (q \<noteq> 0)"
| "truthy (NumberValue NaN) = False"
| "truthy (NumberValue Infinity) = True"
| "truthy (NumberValue NegInfinity) = True"
| "truthy (StringValue str) = (str \<noteq> [])"

datatype FileReader = createFileReader (asText: Buffer)

record FileWithoutContents =
  path :: string

record FileWithContents = FileWithoutContents +
  contents :: FileReader

fun Number_isInteger :: "number \<Rightarrow> bool" where
  "Number_isInteger (Finite q) = (of_int \<lfloor>q\<rfloor> = q)"
| "Number_isInteger NaN = False"
| "Number_isInteger Infinity = False"
| "Number_isInteger NegInfinity = False"

text \<open>The comparison \<^verbatim>\<open>workerCount < 1\<close>.\<close>

fun lessThanOne :: "number \<Rightarrow> bool" where
  "lessThanOne (Finite q) = (q < 1)"
| "lessThanOne NaN = False"
| "lessThanOne Infinity = False"
| "lessThanOne NegInfinity = True"

definition MAX_WORKER_COUNT :: nat where
  "MAX_WORKER_COUNT = 8"

text \<open>
  \<^verbatim>\<open>Math.min(workerCount, MAX_WORKER_COUNT)\<close>, read as the number of times the
  start loop \<^verbatim>\<open>for (let i = 0; i < maxWorkers; i++)\<close> runs.
\<close>

fun Math_min :: "number \<Rightarrow> nat \<Rightarrow> nat" where
  "Math_min (Finite q) m = nat \<lceil>min q (of_nat m)\<rceil>"
| "Math_min NaN m = 0"
| "Math_min Infinity m = m"
| "Math_min NegInfinity m = 0"

text \<open>A directory entry as \<^verbatim>\<open>fs.readdir\<close> with \<^verbatim>\<open>withFileTypes\<close> returns it.\<close>

datatype kind = Directory | RegularFile | SymbolicLink | FIFO | Socket | BlockDevice | CharacterDevice

record Dirent =
  name :: string
  kind :: kind

definition isDirectory :: "Dirent \<Rightarrow> bool" where
  "isDirectory entry = (kind entry = Directory)"

definition isFile :: "Dirent \<Rightarrow> bool" where
  "isFile entry = (kind entry = RegularFile)"

text \<open>The options object; a predicate that throws returns \<open>Inl\<close>.\<close>

record ExploreFileArgs =
  rootDir :: string
  shouldExploreDir :: "string \<Rightarrow> thrown + bool"
  shouldReadFile :: "FileWithoutContents \<Rightarrow> thrown + bool"
  shouldYieldFile :: "(FileWithContents \<Rightarrow> thrown + bool) option"
  workerCount :: "number option"

text \<open>
  The platform modules the walker calls: \<^verbatim>\<open>fs.readdir\<close>, \<^verbatim>\<open>fs.readFile\<close>
  (a rejected promise is \<open>Inl\<close>) and \<^verbatim>\<open>path.join\<close>.
\<close>

record platform =
  readdir :: "string \<Rightarrow> thrown + Dirent list"
  readFile :: "string \<Rightarrow> thrown + Buffer"
  join :: "string \<Rightarrow> string \<Rightarrow> string"

section \<open>Shared state\<close>

text \<open>
  Where each worker coroutine stands between two segments. A worker in \<open>Parked\<close> has
  its resolver in \<^verbatim>\<open>workerWaiters\<close>; \<open>Woken\<close> is a parked worker whose promise has
  been resolved and whose continuation has not run yet.
\<close>

datatype wstatus =
    Starting
  | Running
  | AwaitingReaddir string
  | AwaitingReadFile FileWithoutContents
  | Parked
  | Woken
  | Exited

text \<open>
  Where the generator body stands. \<open>GenParked\<close> is the state in which
  \<^verbatim>\<open>generatorWaiter\<close> is not null.
\<close>

datatype gstatus =
    GenNotStarted
  | GenSuspendedYield
  | GenParked
  | GenWoken
  | GenReturned
  | GenThrew thrown

text \<open>The calls the walker makes to its collaborators, in order.\<close>

datatype event =
    CallReaddir string
  | CallReadFile string
  | CallShouldExploreDir string
  | CallShouldReadFile string
  | CallShouldYieldFile string

record state =
  queueYieldCheck :: "FileWithContents list"
  queueRead :: "FileWithoutContents list"
  queueFileCheck :: "FileWithoutContents list"
  queueDirStat :: "string list"
  queueDirCheck :: "string list"
  outputBuffer :: "FileWithContents list"
  activeWorkers :: int
  isDone :: bool
  error :: thrown
  workers :: "wstatus list"
  generator :: gstatus
  calls :: "event list"
  yielded :: "FileWithContents list"

text \<open>
  Lines 100 to 121: the state the generator body declares; the error slot starts as
  \<^verbatim>\<open>null\<close>.
\<close>

definition initialState :: "ExploreFileArgs \<Rightarrow> state" where
  "initialState opts =
     \<lparr> queueYieldCheck = [],
       queueRead = [],
       queueFileCheck = [],
       queueDirStat = [rootDir opts],
       queueDirCheck = [],
       outputBuffer = [],
       activeWorkers = 0,
       isDone = False,
       error = Null,
       workers = [],
       generator = GenNotStarted,
       calls = [],
       yielded = [] \<rparr>"

section \<open>Helper functions\<close>

text \<open>
  \<^verbatim>\<open>notifyWorkers\<close> empties \<^verbatim>\<open>workerWaiters\<close> and resolves every promise in
  it; \<^verbatim>\<open>notifyGenerator\<close> resolves the generator's promise if there is one.
\<close>

definition wake :: "wstatus \<Rightarrow> wstatus" where
  "wake w = (if w = Parked then Woken else w)"

definition notifyWorkers :: "state \<Rightarrow> state" where
  "notifyWorkers s = s\<lparr>workers := map wake (workers s)\<rparr>"

definition notifyGenerator :: "state \<Rightarrow> state" where
  "notifyGenerator s =
     (if generator s = GenParked then s\<lparr>generator := GenWoken\<rparr> else s)"

definition called :: "event \<Rightarrow> state \<Rightarrow> state" where
  "called e s = s\<lparr>calls := calls s @ [e]\<rparr>"

text \<open>The default of the optional predicate: \<^verbatim>\<open>shouldYieldFile = () => true\<close>.\<close>

definition yieldPredicate :: "ExploreFileArgs \<Rightarrow> FileWithContents \<Rightarrow> thrown + bool" where
  "yieldPredicate opts =
     (case shouldYieldFile opts of None \<Rightarrow> (\<lambda>_. Inr True) | Some p \<Rightarrow> p)"

definition allQueuesEmpty :: "state \<Rightarrow> bool" where
  "allQueuesEmpty s \<longleftrightarrow>
     queueYieldCheck s = [] \<and> queueRead s = [] \<and> queueFileCheck s = [] \<and>
     queueDirStat s = [] \<and> queueDirCheck s = []"

section \<open>Worker logic\<close>

text \<open>How one pass through the body of \<^verbatim>\<open>while (true)\<close> leaves the loop body.\<close>

datatype outcome =
    Continue
  | Return
  | AwaitReaddir string
  | AwaitReadFile FileWithoutContents
  | Park

definition stageYieldCheck :: "ExploreFileArgs \<Rightarrow> FileWithContents \<Rightarrow> state \<Rightarrow> state" where
  "stageYieldCheck opts file s =
     (case yieldPredicate opts file of
        Inr True \<Rightarrow> notifyGenerator (s\<lparr>outputBuffer := outputBuffer s @ [file]\<rparr>)
      | Inr False \<Rightarrow> s
      | Inl e \<Rightarrow> notifyGenerator (s\<lparr>error := e\<rparr>))"

definition stageFileCheck :: "ExploreFileArgs \<Rightarrow> FileWithoutContents \<Rightarrow> state \<Rightarrow> state" where
  "stageFileCheck opts fileCtx s =
     (case shouldReadFile opts fileCtx of
        Inr True \<Rightarrow> notifyWorkers (s\<lparr>queueRead := queueRead s @ [fileCtx]\<rparr>)
      | Inr False \<Rightarrow> s
      | Inl e \<Rightarrow> notifyGenerator (s\<lparr>error := e\<rparr>))"

definition stageDirCheck :: "ExploreFileArgs \<Rightarrow> string \<Rightarrow> state \<Rightarrow> state \<times> outcome" where
  "stageDirCheck opts dirPath s =
     (case shouldExploreDir opts dirPath of
        Inr True \<Rightarrow> (notifyWorkers (s\<lparr>queueDirStat := queueDirStat s @ [dirPath]\<rparr>), Continue)
      | Inr False \<Rightarrow> (s, Continue)
      | Inl e \<Rightarrow> (notifyGenerator (s\<lparr>error := e\<rparr>), Return))"

definition noWorkAvailable :: "state \<Rightarrow> state \<times> outcome" where
  "noWorkAvailable s =
     (let s1 = s\<lparr>activeWorkers := activeWorkers s - 1\<rparr> in
      if activeWorkers s1 = 0 \<and> allQueuesEmpty s1
      then (notifyWorkers (notifyGenerator (s1\<lparr>isDone := True\<rparr>)), Return)
      else (s1, Park))"

text \<open>
  Lines 152 to 260, from the top of the loop body to the next \<^verbatim>\<open>continue\<close>,
  \<^verbatim>\<open>return\<close> or \<^verbatim>\<open>await\<close>.
\<close>

definition workerIteration :: "ExploreFileArgs \<Rightarrow> state \<Rightarrow> state \<times> outcome" where
  "workerIteration opts s =
     (if truthy (error s) then (s, Return)
      else case queueYieldCheck s of
        file # rest \<Rightarrow>
          (stageYieldCheck opts file
             (called (CallShouldYieldFile (path file)) (s\<lparr>queueYieldCheck := rest\<rparr>)),
           Continue)
      | [] \<Rightarrow>
      (case queueRead s of
        fileCtx # rest \<Rightarrow>
          (called (CallReadFile (path fileCtx)) (s\<lparr>queueRead := rest\<rparr>),
           AwaitReadFile fileCtx)
      | [] \<Rightarrow>
      (case queueFileCheck s of
        fileCtx # rest \<Rightarrow>
          (stageFileCheck opts fileCtx
             (called (CallShouldReadFile (path fileCtx)) (s\<lparr>queueFileCheck := rest\<rparr>)),
           Continue)
      | [] \<Rightarrow>
      (case queueDirStat s of
        dirPath # rest \<Rightarrow>
          (called (CallReaddir dirPath) (s\<lparr>queueDirStat := rest\<rparr>),
           AwaitReaddir dirPath)
      | [] \<Rightarrow>
      (case queueDirCheck s of
        dirPath # rest \<Rightarrow>
          stageDirCheck opts dirPath
            (called (CallShouldExploreDir dirPath) (s\<lparr>queueDirCheck := rest\<rparr>))
      | [] \<Rightarrow> noWorkAvailable s)))))"

text \<open>The number of tasks the synchronous stages can still pop.\<close>

definition syncTasks :: "state \<Rightarrow> nat" where
  "syncTasks s =
     length (queueYieldCheck s) + length (queueFileCheck s) + length (queueDirCheck s)"

lemma notifyWorkers_fields [simp]:
  "queueYieldCheck (notifyWorkers s) = queueYieldCheck s"
  "queueRead (notifyWorkers s) = queueRead s"
  "queueFileCheck (notifyWorkers s) = queueFileCheck s"
  "queueDirStat (notifyWorkers s) = queueDirStat s"
  "queueDirCheck (notifyWorkers s) = queueDirCheck s"
  "outputBuffer (notifyWorkers s) = outputBuffer s"
  "activeWorkers (notifyWorkers s) = activeWorkers s"
  "isDone (notifyWorkers s) = isDone s"
  "error (notifyWorkers s) = error s"
  "generator (notifyWorkers s) = generator s"
  "calls (notifyWorkers s) = calls s"
  "yielded (notifyWorkers s) = yielded s"
  "length (workers (notifyWorkers s)) = length (workers s)"
  by (simp_all add: notifyWorkers_def)

lemma notifyGenerator_fields [simp]:
  "queueYieldCheck (notifyGenerator s) = queueYieldCheck s"
  "queueRead (notifyGenerator s) = queueRead s"
  "queueFileCheck (notifyGenerator s) = queueFileCheck s"
  "queueDirStat (notifyGenerator s) = queueDirStat s"
  "queueDirCheck (notifyGenerator s) = queueDirCheck s"
  "outputBuffer (notifyGenerator s) = outputBuffer s"
  "activeWorkers (notifyGenerator s) = activeWorkers s"
  "isDone (notifyGenerator s) = isDone s"
  "error (notifyGenerator s) = error s"
  "workers (notifyGenerator s) = workers s"
  "calls (notifyGenerator s) = calls s"
  "yielded (notifyGenerator s) = yielded s"
  by (simp_all add: notifyGenerator_def)

lemma called_fields [simp]:
  "queueYieldCheck (called e s) = queueYieldCheck s"
  "queueRead (called e s) = queueRead s"
  "queueFileCheck (called e s) = queueFileCheck s"
  "queueDirStat (called e s) = queueDirStat s"
  "queueDirCheck (called e s) = queueDirCheck s"
  "outputBuffer (called e s) = outputBuffer s"
  "activeWorkers (called e s) = activeWorkers s"
  "isDone (called e s) = isDone s"
  "error (called e s) = error s"
  "workers (called e s) = workers s"
  "generator (called e s) = generator s"
  "calls (called e s) = calls s @ [e]"
  "yielded (called e s) = yielded s"
  by (simp_all add: called_def)

lemma workerIteration_Continue_less:
  "snd (workerIteration opts s) = Continue \<Longrightarrow>
   syncTasks (fst (workerIteration opts s)) < syncTasks s"
  by (auto simp: workerIteration_def syncTasks_def stageYieldCheck_def stageFileCheck_def
        stageDirCheck_def noWorkAvailable_def Let_def
      split: if_splits list.splits sum.splits bool.splits)

text \<open>
  The loop of \<^verbatim>\<open>workerLoop\<close> from its top to the next suspension or return: the
  synchronous stages run back to back.
\<close>

function workerLoop :: "ExploreFileArgs \<Rightarrow> state \<Rightarrow> state \<times> outcome" where
  "workerLoop opts s =
     (let r = workerIteration opts s
      in if snd r = Continue then workerLoop opts (fst r) else r)"
  by pat_completeness auto
termination
  by (relation "measure (\<lambda>(opts, s). syncTasks s)")
     (auto simp: workerIteration_Continue_less)

declare workerLoop.simps [simp del]

text \<open>What the worker's coroutine is left as after a segment.\<close>

fun statusAfter :: "outcome \<Rightarrow> wstatus" where
  "statusAfter Continue = Running"
| "statusAfter Return = Exited"
| "statusAfter (AwaitReaddir dirPath) = AwaitingReaddir dirPath"
| "statusAfter (AwaitReadFile fileCtx) = AwaitingReadFile fileCtx"
| "statusAfter Park = Parked"

text \<open>Worker \<open>i\<close> runs from the top of its loop until it suspends or returns.\<close>

definition runWorker :: "ExploreFileArgs \<Rightarrow> nat \<Rightarrow> state \<Rightarrow> state" where
  "runWorker opts i s =
     (let r = workerLoop opts (s\<lparr>workers := (workers s)[i := Running]\<rparr>)
      in (fst r)\<lparr>workers := (workers (fst r))[i := statusAfter (snd r)]\<rparr>)"

text \<open>
  Lines 207 to 222 after the \<^verbatim>\<open>await\<close>: the listing has arrived or the promise
  has been rejected.
\<close>

fun enqueueEntries :: "platform \<Rightarrow> string \<Rightarrow> Dirent list \<Rightarrow> state \<Rightarrow> state" where
  "enqueueEntries io dirPath [] s = s"
| "enqueueEntries io dirPath (entry # entries) s =
     (let fullPath = join io dirPath (name entry) in
      enqueueEntries io dirPath entries
        (if isDirectory entry then s\<lparr>queueDirCheck := queueDirCheck s @ [fullPath]\<rparr>
         else if isFile entry then s\<lparr>queueFileCheck := queueFileCheck s @ [\<lparr>path = fullPath\<rparr>]\<rparr>
         else s))"

definition settleReaddir :: "platform \<Rightarrow> string \<Rightarrow> state \<Rightarrow> state" where
  "settleReaddir io dirPath s =
     (case readdir io dirPath of
        Inr entries \<Rightarrow>
          (let s1 = enqueueEntries io dirPath entries s
           in if length entries > 0 then notifyWorkers s1 else s1)
      | Inl e \<Rightarrow> notifyGenerator (s\<lparr>error := e\<rparr>))"

text \<open>Lines 174 to 183 after the \<^verbatim>\<open>await\<close>.\<close>

definition settleReadFile :: "platform \<Rightarrow> FileWithoutContents \<Rightarrow> state \<Rightarrow> state" where
  "settleReadFile io fileCtx s =
     (case readFile io (path fileCtx) of
        Inr buffer \<Rightarrow>
          notifyWorkers
            (s\<lparr>queueYieldCheck := queueYieldCheck s @
                 [\<lparr>path = path fileCtx, contents = createFileReader buffer\<rparr>]\<rparr>)
      | Inl e \<Rightarrow> notifyGenerator (s\<lparr>error := e\<rparr>))"

section \<open>Validation, start of the workers, generator loop\<close>

definition invalidWorkerCount :: thrown where
  "invalidWorkerCount = Error ''workerCount must be a positive integer.''"

text \<open>Lines 87 to 96; the default of \<^verbatim>\<open>workerCount\<close> is 1.\<close>

definition validate :: "ExploreFileArgs \<Rightarrow> thrown + nat" where
  "validate opts =
     (let workerCount = (case workerCount opts of None \<Rightarrow> Finite 1 | Some n \<Rightarrow> n) in
      if \<not> Number_isInteger workerCount \<or> lessThanOne workerCount
      then Inl invalidWorkerCount
      else Inr (Math_min workerCount MAX_WORKER_COUNT))"

text \<open>Lines 270 to 273: each call of \<^verbatim>\<open>workerLoop()\<close> runs up to its first suspension.\<close>

definition startWorkers :: "ExploreFileArgs \<Rightarrow> nat \<Rightarrow> state \<Rightarrow> state" where
  "startWorkers opts maxWorkers s =
     fold (runWorker opts) [0..<maxWorkers]
       (s\<lparr>activeWorkers := int maxWorkers, workers := replicate maxWorkers Starting\<rparr>)"

text \<open>Lines 277 to 295, from the top of the loop to the next suspension or exit.\<close>

definition generatorLoop :: "state \<Rightarrow> state" where
  "generatorLoop s =
     (case outputBuffer s of
        file # rest \<Rightarrow>
          s\<lparr>outputBuffer := rest, yielded := yielded s @ [file],
            generator := GenSuspendedYield\<rparr>
      | [] \<Rightarrow>
          if truthy (error s) then s\<lparr>generator := GenThrew (error s)\<rparr>
          else if isDone s then s\<lparr>generator := GenReturned\<rparr>
          else s\<lparr>generator := GenParked\<rparr>)"

text \<open>
  The body of the generator up to its first suspension. It runs on the first pull:
  calling an \<^verbatim>\<open>async function*\<close> only creates the iterator.
\<close>

definition firstPull :: "ExploreFileArgs \<Rightarrow> state \<Rightarrow> state" where
  "firstPull opts s =
     (case validate opts of
        Inl e \<Rightarrow> s\<lparr>generator := GenThrew e\<rparr>
      | Inr maxWorkers \<Rightarrow> generatorLoop (startWorkers opts maxWorkers s))"

text \<open>
  The call of \<^verbatim>\<open>exploreFilesAsync\<close> itself. The function is declared
  \<^verbatim>\<open>async function*\<close> (line 79): a call runs nothing of the body, it returns the
  iterator, whose body starts on the first pull. So the call never throws, whatever
  the options are.
\<close>

definition exploreFilesAsync :: "ExploreFileArgs \<Rightarrow> thrown + state" where
  "exploreFilesAsync options = Inr (initialState options)"

section \<open>The event loop\<close>

text \<open>
  What can run next: the consumer asks for the next record (\<open>Pull\<close>), the woken
  generator continues, the pending file-system operation of worker \<open>i\<close> settles, or
  the woken worker \<open>i\<close> continues. The consumer pulls one record at a time, as
  \<^verbatim>\<open>for await\<close> does. An action that is not enabled gives \<open>None\<close>.
\<close>

datatype action = Pull | ResumeGenerator | SettleIO nat | ResumeWorker nat

fun step :: "ExploreFileArgs \<Rightarrow> platform \<Rightarrow> action \<Rightarrow> state \<Rightarrow> state option" where
  "step opts io Pull s =
     (case generator s of
        GenNotStarted \<Rightarrow> Some (firstPull opts s)
      | GenSuspendedYield \<Rightarrow> Some (generatorLoop s)
      | _ \<Rightarrow> None)"
| "step opts io ResumeGenerator s =
     (case generator s of
        GenWoken \<Rightarrow> Some (generatorLoop s)
      | _ \<Rightarrow> None)"
| "step opts io (SettleIO i) s =
     (if i < length (workers s) then
        (case workers s ! i of
           AwaitingReaddir dirPath \<Rightarrow> Some (runWorker opts i (settleReaddir io dirPath s))
         | AwaitingReadFile fileCtx \<Rightarrow> Some (runWorker opts i (settleReadFile io fileCtx s))
         | _ \<Rightarrow> None)
      else None)"
| "step opts io (ResumeWorker i) s =
     (if i < length (workers s) then
        (case workers s ! i of
           Woken \<Rightarrow> Some (runWorker opts i (s\<lparr>activeWorkers := activeWorkers s + 1\<rparr>))
         | _ \<Rightarrow> None)
      else None)"

text \<open>A schedule is a list of actions; it runs as long as each action is enabled.\<close>

fun run :: "ExploreFileArgs \<Rightarrow> platform \<Rightarrow> action list \<Rightarrow> state \<Rightarrow> state option" where
  "run opts io [] s = Some s"
| "run opts io (a # as) s =
     (case step opts io a s of None \<Rightarrow> None | Some s' \<Rightarrow> run opts io as s')"

text \<open>The states a run of the walker can be in between two segments.\<close>

inductive reachable :: "ExploreFileArgs \<Rightarrow> platform \<Rightarrow> state \<Rightarrow> bool"
  for opts :: ExploreFileArgs and io :: platform where
  initial: "reachable opts io (initialState opts)"
| after: "reachable opts io s \<Longrightarrow> step opts io a s = Some s' \<Longrightarrow> reachable opts io s'"

text \<open>
  The state in which the start loop has run \<open>k\<close> of its \<open>n\<close> calls of
  \<^verbatim>\<open>workerLoop()\<close>: the first worker has taken the root and waits for its listing,
  the next ones found nothing and parked.
\<close>

definition afterStart :: "ExploreFileArgs \<Rightarrow> nat \<Rightarrow> nat \<Rightarrow> state" where
  "afterStart opts n k =
     (initialState opts)\<lparr>queueDirStat := [], activeWorkers := int n - int k + 1,
        workers := AwaitingReaddir (rootDir opts) #
                   replicate (k - 1) Parked @ replicate (n - k) Starting,
        calls := [CallReaddir (rootDir opts)]\<rparr>"

text \<open>Example inputs used to evaluate the definitions.\<close>

definition denyAll :: ExploreFileArgs where
  "denyAll =
     \<lparr> rootDir = ''/r'',
       shouldExploreDir = (\<lambda>p. Inr False),
       shouldReadFile = (\<lambda>f. Inr True),
       shouldYieldFile = None,
       workerCount = None \<rparr>"

definition withWorkerCount :: "number \<Rightarrow> ExploreFileArgs" where
  "withWorkerCount n = denyAll\<lparr>workerCount := Some n\<rparr>"

definition emptyDisk :: platform where
  "emptyDisk =
     \<lparr> readdir = (\<lambda>p. Inr []),
       readFile = (\<lambda>p. Inl (Error ''ENOENT'')),
       join = (\<lambda>d n. d @ ''/'' @ n) \<rparr>"

text \<open>The state after the first pull when the validation throws (line 94).\<close>

definition thrownBeforeStart :: "ExploreFileArgs \<Rightarrow> state" where
  "thrownBeforeStart opts = (initialState opts)\<lparr>generator := GenThrew invalidWorkerCount\<rparr>"

text \<open>Options whose predicates throw, and a disk on which every operation fails.\<close>

definition throwing :: ExploreFileArgs where
  "throwing =
     \<lparr> rootDir = ''/r'',
       shouldExploreDir = (\<lambda>p. Inl (Error ''dir predicate'')),
       shouldReadFile = (\<lambda>f. Inl (Error ''file predicate'')),
       shouldYieldFile = Some (\<lambda>f. Inl (Error ''yield predicate'')),
       workerCount = Some (Finite 2) \<rparr>"

definition brokenDisk :: platform where
  "brokenDisk =
     \<lparr> readdir = (\<lambda>p. Inl (Error ''EACCES'')),
       readFile = (\<lambda>p. Inl (Error ''EIO'')),
       join = (\<lambda>d n. d @ ''/'' @ n) \<rparr>"

definition dirCheckPending :: state where
  "dirCheckPending =
     (initialState throwing)
       \<lparr>queueDirStat := [], queueDirCheck := [''/r/sub''], activeWorkers := 1,
        workers := [Running], generator := GenParked\<rparr>"

definition fileCheckPending :: state where
  "fileCheckPending =
     (initialState throwing)
       \<lparr>queueDirStat := [], queueFileCheck := [\<lparr>path = ''/r/a''\<rparr>], activeWorkers := 1,
        workers := [Running], generator := GenParked\<rparr>"

text \<open>
  The workers that count in \<^verbatim>\<open>activeWorkers\<close>: those that are neither parked nor
  woken nor gone. A worker that leaves its loop on an error (lines 152 and 237) does
  not decrement the counter, so the counter can exceed their number; once it does, or
  once the slot holds a truthy value, \<^verbatim>\<open>isDone\<close> is not set.
\<close>

fun busy :: "wstatus \<Rightarrow> bool" where
  "busy Parked = False"
| "busy Woken = False"
| "busy Exited = False"
| "busy Starting = True"
| "busy Running = True"
| "busy (AwaitingReaddir d) = True"
| "busy (AwaitingReadFile f) = True"

definition busyCount :: "wstatus list \<Rightarrow> nat" where
  "busyCount ws = length (filter busy ws)"

definition counted :: "state \<Rightarrow> bool" where
  "counted s \<longleftrightarrow>
     int (busyCount (workers s)) \<le> activeWorkers s \<and>
     (int (busyCount (workers s)) < activeWorkers s \<or> truthy (error s) \<longrightarrow> \<not> isDone s)"

text \<open>What holds between two segments, and what holds while worker \<open>i\<close> runs.\<close>

definition atRest :: "state \<Rightarrow> bool" where
  "atRest s \<longleftrightarrow>
     counted s \<and>
     (isDone s \<longrightarrow> allQueuesEmpty s \<and> (\<forall>w \<in> set (workers s). w = Woken \<or> w = Exited)) \<and>
     (\<not> isDone s \<longrightarrow> 1 \<le> activeWorkers s) \<and>
     (truthy (error s) \<longrightarrow> int (busyCount (workers s)) < activeWorkers s)"

definition inSegment :: "nat \<Rightarrow> state \<Rightarrow> bool" where
  "inSegment i s \<longleftrightarrow>
     i < length (workers s) \<and> workers s ! i = Running \<and> counted s \<and>
      (isDone s \<longrightarrow> allQueuesEmpty s \<and>
        (\<forall>j < length (workers s). j \<noteq> i \<longrightarrow> workers s ! j = Woken \<or> workers s ! j = Exited))"

text \<open>
  The workers that have left their loop on an error: \<^verbatim>\<open>activeWorkers\<close> still counts
  them.
\<close>

definition leak :: "state \<Rightarrow> int" where
  "leak s = activeWorkers s - int (busyCount (workers s))"

text \<open>Options that accept everything, with two workers.\<close>

definition acceptAll :: ExploreFileArgs where
  "acceptAll =
     \<lparr> rootDir = ''/r'',
       shouldExploreDir = (\<lambda>p. Inr True),
       shouldReadFile = (\<lambda>f. Inr True),
       shouldYieldFile = None,
       workerCount = Some (Finite 2) \<rparr>"

text \<open>A directory with three regular files, two of which cannot be read.\<close>

definition twoUnreadable :: platform where
  "twoUnreadable =
     \<lparr> readdir = (\<lambda>p. if p = ''/r''
          then Inr [\<lparr>name = ''a'', kind = RegularFile\<rparr>,
                    \<lparr>name = ''b'', kind = RegularFile\<rparr>,
                    \<lparr>name = ''c'', kind = RegularFile\<rparr>]
          else Inl (Error ''ENOTDIR'')),
       readFile = (\<lambda>p. if p = ''/r/a'' then Inr ''A''
          else if p = ''/r/b'' then Inl (Error ''EACCES b'')
          else Inl (Error ''EACCES c'')),
       join = (\<lambda>d n. d @ ''/'' @ n) \<rparr>"

text \<open>The error that a settling operation of worker \<open>i\<close> would record, if it fails.\<close>

definition pendingFailure :: "platform \<Rightarrow> action \<Rightarrow> state \<Rightarrow> thrown option" where
  "pendingFailure io a s =
     (case a of
        SettleIO i \<Rightarrow>
          (case workers s ! i of
             AwaitingReaddir dirPath \<Rightarrow>
               (case readdir io dirPath of Inl e \<Rightarrow> Some e | Inr entries \<Rightarrow> None)
           | AwaitingReadFile fileCtx \<Rightarrow>
               (case readFile io (path fileCtx) of Inl e \<Rightarrow> Some e | Inr buffer \<Rightarrow> None)
           | _ \<Rightarrow> None)
      | _ \<Rightarrow> None)"

definition slowConsumer :: "action list" where
  "slowConsumer =
     [Pull, SettleIO 0, ResumeWorker 1, SettleIO 0, ResumeGenerator, SettleIO 1, SettleIO 0, Pull]"

text \<open>States of concrete runs.\<close>

definition emptyRootDone :: state where
  "emptyRootDone =
     \<lparr>queueYieldCheck = [], queueRead = [], queueFileCheck = [],
      queueDirStat = [], queueDirCheck = [], outputBuffer = [],
      activeWorkers = 0, isDone = True, error = Null, workers = [Exited],
      generator = GenWoken, calls = [CallReaddir ''/r''], yielded = []\<rparr>"

definition rootListingRejected :: state where
  "rootListingRejected =
     \<lparr>queueYieldCheck = [], queueRead = [], queueFileCheck = [],
      queueDirStat = [], queueDirCheck = [], outputBuffer = [],
      activeWorkers = 1, isDone = False, error = Error ''EACCES'',
      workers = [Exited, Parked], generator = GenWoken,
      calls = [CallReaddir ''/r''], yielded = []\<rparr>"

definition rootListingThrown :: state where
  "rootListingThrown = rootListingRejected\<lparr>generator := GenThrew (Error ''EACCES'')\<rparr>"

text \<open>
  The paths a state mentions: in a stage queue, in a pending file-system operation, in
  the output buffer, among the yielded records, or as the argument of a call made so
  far.
\<close>

fun statusPaths :: "wstatus \<Rightarrow> string set" where
  "statusPaths (AwaitingReaddir dirPath) = {dirPath}"
| "statusPaths (AwaitingReadFile fileCtx) = {path fileCtx}"
| "statusPaths Starting = {}"
| "statusPaths Running = {}"
| "statusPaths Parked = {}"
| "statusPaths Woken = {}"
| "statusPaths Exited = {}"

fun outcomePaths :: "outcome \<Rightarrow> string set" where
  "outcomePaths (AwaitReaddir dirPath) = {dirPath}"
| "outcomePaths (AwaitReadFile fileCtx) = {path fileCtx}"
| "outcomePaths Continue = {}"
| "outcomePaths Return = {}"
| "outcomePaths Park = {}"

fun eventPath :: "event \<Rightarrow> string" where
  "eventPath (CallReaddir p) = p"
| "eventPath (CallReadFile p) = p"
| "eventPath (CallShouldExploreDir p) = p"
| "eventPath (CallShouldReadFile p) = p"
| "eventPath (CallShouldYieldFile p) = p"

definition pendingPaths :: "wstatus list \<Rightarrow> string set" where
  "pendingPaths ws = (\<Union>w \<in> set ws. statusPaths w)"

definition mentioned :: "state \<Rightarrow> string set" where
  "mentioned s =
     path ` set (queueYieldCheck s) \<union> path ` set (queueRead s) \<union>
     path ` set (queueFileCheck s) \<union> set (queueDirStat s) \<union> set (queueDirCheck s) \<union>
     path ` set (outputBuffer s) \<union> path ` set (yielded s) \<union>
     pendingPaths (workers s) \<union> eventPath ` set (calls s)"

text \<open>The root, and the paths of the entries of any listing that are files or directories.\<close>

definition walkable :: "ExploreFileArgs \<Rightarrow> platform \<Rightarrow> string set" where
  "walkable opts io =
     insert (rootDir opts)
       {p. \<exists>d entries entry. readdir io d = Inr entries \<and> entry \<in> set entries \<and>
             (isDirectory entry \<or> isFile entry) \<and> p = join io d (name entry)}"

text \<open>A directory with a regular file and a symbolic link.\<close>

definition symlinkDisk :: platform where
  "symlinkDisk =
     \<lparr> readdir = (\<lambda>p. if p = ''/r''
          then Inr [\<lparr>name = ''a'', kind = RegularFile\<rparr>, \<lparr>name = ''l'', kind = SymbolicLink\<rparr>]
          else Inl (Error ''ENOTDIR'')),
       readFile = (\<lambda>p. Inr ''A''),
       join = (\<lambda>d n. d @ ''/'' @ n) \<rparr>"

definition symlinkWalk :: "action list" where
  "symlinkWalk =
     [Pull, SettleIO 0, ResumeWorker 1, SettleIO 0, ResumeGenerator, ResumeWorker 1, Pull]"

definition symlinkWalked :: state where
  "symlinkWalked =
     \<lparr>queueYieldCheck = [], queueRead = [], queueFileCheck = [],
      queueDirStat = [], queueDirCheck = [], outputBuffer = [],
      activeWorkers = 0, isDone = True, error = Null, workers = [Exited, Exited],
      generator = GenReturned,
      calls = [CallReaddir ''/r'', CallShouldReadFile ''/r/a'', CallReadFile ''/r/a'',
               CallShouldYieldFile ''/r/a''],
      yielded = [\<lparr>path = ''/r/a'', contents = createFileReader ''A''\<rparr>]\<rparr>"

section \<open>The files a walk is expected to yield\<close>

text \<open>The three predicates never throw.\<close>

definition nonThrowing :: "ExploreFileArgs \<Rightarrow> bool" where
  "nonThrowing opts \<longleftrightarrow>
     (\<forall>p. \<exists>b. shouldExploreDir opts p = Inr b) \<and>
     (\<forall>f. \<exists>b. shouldReadFile opts f = Inr b) \<and>
     (\<forall>r. \<exists>b. yieldPredicate opts r = Inr b)"

definition isReadable :: "thrown + Buffer \<Rightarrow> bool" where
  "isReadable result = (case result of Inl e \<Rightarrow> False | Inr buffer \<Rightarrow> True)"

text \<open>
  What lies under \<open>d\<close> is a directory tree of height less than \<open>k\<close>, as far as the
  walker is let into it: \<open>d\<close> can be listed, every sub-directory that
  \<^verbatim>\<open>shouldExploreDir\<close> accepts is such a tree of height less than \<open>k - 1\<close>, and
  every regular file that \<^verbatim>\<open>shouldReadFile\<close> accepts can be read.
\<close>

fun explorableTree :: "ExploreFileArgs \<Rightarrow> platform \<Rightarrow> nat \<Rightarrow> string \<Rightarrow> bool" where
  "explorableTree opts io 0 d = False"
| "explorableTree opts io (Suc k) d =
     (case readdir io d of
        Inl e \<Rightarrow> False
      | Inr entries \<Rightarrow>
          list_all
            (\<lambda>entry.
               (isDirectory entry \<and> shouldExploreDir opts (join io d (name entry)) = Inr True
                  \<longrightarrow> explorableTree opts io k (join io d (name entry))) \<and>
               (isFile entry \<and> shouldReadFile opts \<lparr>path = join io d (name entry)\<rparr> = Inr True
                  \<longrightarrow> isReadable (readFile io (join io d (name entry)))))
            entries)"

text \<open>
  The directories the walk is to list: the root, and every sub-directory of such a
  directory that \<^verbatim>\<open>shouldExploreDir\<close> accepts.
\<close>

inductive explored :: "ExploreFileArgs \<Rightarrow> platform \<Rightarrow> string \<Rightarrow> bool"
  for opts :: ExploreFileArgs and io :: platform where
  root: "explored opts io (rootDir opts)"
| sub: "explored opts io d \<Longrightarrow> readdir io d = Inr entries \<Longrightarrow> entry \<in> set entries \<Longrightarrow>
        isDirectory entry \<Longrightarrow> shouldExploreDir opts (join io d (name entry)) = Inr True \<Longrightarrow>
        explored opts io (join io d (name entry))"

definition fileIn :: "platform \<Rightarrow> string \<Rightarrow> string \<Rightarrow> bool" where
  "fileIn io d p \<longleftrightarrow>
     (\<exists>entries entry. readdir io d = Inr entries \<and> entry \<in> set entries \<and> isFile entry \<and>
        p = join io d (name entry))"

definition dirIn :: "platform \<Rightarrow> string \<Rightarrow> string \<Rightarrow> bool" where
  "dirIn io d p \<longleftrightarrow>
     (\<exists>entries entry. readdir io d = Inr entries \<and> entry \<in> set entries \<and> isDirectory entry \<and>
        p = join io d (name entry))"

text \<open>
  The file at \<open>p\<close> passes \<^verbatim>\<open>shouldReadFile\<close>, and its record passes
  \<^verbatim>\<open>shouldYieldFile\<close> (which accepts everything when it is omitted).
\<close>

definition yieldable :: "ExploreFileArgs \<Rightarrow> platform \<Rightarrow> string \<Rightarrow> bool" where
  "yieldable opts io p \<longleftrightarrow>
     shouldReadFile opts \<lparr>path = p\<rparr> = Inr True \<and>
     (\<exists>buffer. readFile io p = Inr buffer \<and>
        yieldPredicate opts \<lparr>path = p, contents = createFileReader buffer\<rparr> = Inr True)"

text \<open>
  The set of the specification: the files under the root all of whose ancestor
  directories below the root pass \<^verbatim>\<open>shouldExploreDir\<close>, which pass
  \<^verbatim>\<open>shouldReadFile\<close> and whose record passes \<^verbatim>\<open>shouldYieldFile\<close>.
\<close>

definition specPaths :: "ExploreFileArgs \<Rightarrow> platform \<Rightarrow> string set" where
  "specPaths opts io = {p. \<exists>d. explored opts io d \<and> fileIn io d p \<and> yieldable opts io p}"

text \<open>The same files, found from a directory downwards.\<close>

inductive expected :: "ExploreFileArgs \<Rightarrow> platform \<Rightarrow> string \<Rightarrow> string \<Rightarrow> bool"
  for opts :: ExploreFileArgs and io :: platform where
  here: "fileIn io d p \<Longrightarrow> yieldable opts io p \<Longrightarrow> expected opts io d p"
| below: "dirIn io d c \<Longrightarrow> shouldExploreDir opts c = Inr True \<Longrightarrow>
          expected opts io c p \<Longrightarrow> expected opts io d p"

section \<open>What is left to do in a state\<close>

text \<open>
  The tasks of a state: one for every entry of a stage queue, for every pending
  file-system operation, and for every record in the output buffer or yielded.
\<close>

datatype task =
    ToCheckDir string
  | ToList string
  | ToCheckFile string
  | ToRead string
  | ToCheckYield FileWithContents
  | ToDeliver FileWithContents

fun statusTasks :: "wstatus \<Rightarrow> task set" where
  "statusTasks (AwaitingReaddir dirPath) = {ToList dirPath}"
| "statusTasks (AwaitingReadFile fileCtx) = {ToRead (path fileCtx)}"
| "statusTasks Starting = {}"
| "statusTasks Running = {}"
| "statusTasks Parked = {}"
| "statusTasks Woken = {}"
| "statusTasks Exited = {}"

definition pendingTasks :: "wstatus list \<Rightarrow> task set" where
  "pendingTasks ws = (\<Union>w \<in> set ws. statusTasks w)"

definition tasks :: "state \<Rightarrow> task set" where
  "tasks s =
     ToCheckYield ` set (queueYieldCheck s) \<union>
     (\<lambda>f. ToRead (path f)) ` set (queueRead s) \<union>
     (\<lambda>f. ToCheckFile (path f)) ` set (queueFileCheck s) \<union>
     ToList ` set (queueDirStat s) \<union>
     ToCheckDir ` set (queueDirCheck s) \<union>
     ToDeliver ` set (outputBuffer s) \<union>
     ToDeliver ` set (yielded s) \<union>
     pendingTasks (workers s)"

text \<open>A task is in order when it is about a path the walk is meant to reach.\<close>

fun okTask :: "ExploreFileArgs \<Rightarrow> platform \<Rightarrow> task \<Rightarrow> bool" where
  "okTask opts io (ToList d) = explored opts io d"
| "okTask opts io (ToCheckDir c) = (\<exists>d. explored opts io d \<and> dirIn io d c)"
| "okTask opts io (ToCheckFile p) = (\<exists>d. explored opts io d \<and> fileIn io d p)"
| "okTask opts io (ToRead p) =
     ((\<exists>d. explored opts io d \<and> fileIn io d p) \<and> shouldReadFile opts \<lparr>path = p\<rparr> = Inr True)"
| "okTask opts io (ToCheckYield r) =
     ((\<exists>d. explored opts io d \<and> fileIn io d (path r)) \<and>
      shouldReadFile opts \<lparr>path = path r\<rparr> = Inr True \<and>
      readFile io (path r) = Inr (asText (contents r)))"
| "okTask opts io (ToDeliver r) = (path r \<in> specPaths opts io)"

text \<open>A task covers an expected path when carrying the task out leads to that path.\<close>

fun covers :: "ExploreFileArgs \<Rightarrow> platform \<Rightarrow> task \<Rightarrow> string \<Rightarrow> bool" where
  "covers opts io (ToList d) p = expected opts io d p"
| "covers opts io (ToCheckDir c) p =
     (shouldExploreDir opts c = Inr True \<and> expected opts io c p)"
| "covers opts io (ToCheckFile q) p = (q = p)"
| "covers opts io (ToRead q) p = (q = p)"
| "covers opts io (ToCheckYield r) p = (path r = p)"
| "covers opts io (ToDeliver r) p = (path r = p)"

definition walkInv :: "ExploreFileArgs \<Rightarrow> platform \<Rightarrow> state \<Rightarrow> bool" where
  "walkInv opts io s \<longleftrightarrow>
     error s = Null \<and>
     (\<forall>t \<in> tasks s. okTask opts io t) \<and>
     (\<forall>p \<in> specPaths opts io. \<exists>t \<in> tasks s. covers opts io t p)"

text \<open>The state a worker leaves behind when its segment ends with the given outcome.\<close>

definition suspend :: "nat \<Rightarrow> state \<times> outcome \<Rightarrow> state" where
  "suspend i r = (fst r)\<lparr>workers := (workers (fst r))[i := statusAfter (snd r)]\<rparr>"

text \<open>
  What the generator's position says about the shared state: it is parked only while
  there is nothing to deliver, it has returned only with an empty buffer after
  \<^verbatim>\<open>isDone\<close>, and what it has thrown is truthy.
\<close>

definition genInv :: "state \<Rightarrow> bool" where
  "genInv s \<longleftrightarrow>
     (generator s = GenParked \<longrightarrow> outputBuffer s = [] \<and> \<not> isDone s \<and> \<not> truthy (error s)) \<and>
     (generator s = GenReturned \<longrightarrow> outputBuffer s = [] \<and> isDone s) \<and>
     (\<forall>e. generator s = GenThrew e \<longrightarrow> truthy e)"

text \<open>Between two segments no worker is running.\<close>

definition idle :: "state \<Rightarrow> bool" where
  "idle s \<longleftrightarrow> (\<forall>j < length (workers s). workers s ! j \<noteq> Running \<and> workers s ! j \<noteq> Starting)"

section \<open>How much work is left\<close>

text \<open>
  The number of steps a task still needs: a file to check needs five (check, start of
  the read, end of the read, yield check, delivery), a directory to list needs two and
  what its entries need.
\<close>

fun dirWeight :: "ExploreFileArgs \<Rightarrow> platform \<Rightarrow> nat \<Rightarrow> string \<Rightarrow> nat" where
  "dirWeight opts io 0 d = 2"
| "dirWeight opts io (Suc k) d =
     2 + (case readdir io d of
            Inl e \<Rightarrow> 0
          | Inr entries \<Rightarrow>
              sum_list
                (map (\<lambda>entry.
                        if isDirectory entry then
                          1 + (if shouldExploreDir opts (join io d (name entry)) = Inr True
                               then dirWeight opts io k (join io d (name entry)) else 0)
                        else if isFile entry then 5 else 0)
                   entries))"

definition checkWeight :: "ExploreFileArgs \<Rightarrow> platform \<Rightarrow> nat \<Rightarrow> string \<Rightarrow> nat" where
  "checkWeight opts io k c =
     1 + (if shouldExploreDir opts c = Inr True then dirWeight opts io k c else 0)"

fun statusWeight :: "ExploreFileArgs \<Rightarrow> platform \<Rightarrow> nat \<Rightarrow> wstatus \<Rightarrow> nat" where
  "statusWeight opts io k (AwaitingReaddir d) = dirWeight opts io k d - 1"
| "statusWeight opts io k (AwaitingReadFile f) = 3"
| "statusWeight opts io k Starting = 0"
| "statusWeight opts io k Running = 0"
| "statusWeight opts io k Parked = 0"
| "statusWeight opts io k Woken = 0"
| "statusWeight opts io k Exited = 0"

definition potential :: "ExploreFileArgs \<Rightarrow> platform \<Rightarrow> nat \<Rightarrow> state \<Rightarrow> nat" where
  "potential opts io k s =
     length (outputBuffer s) + 2 * length (queueYieldCheck s) + 4 * length (queueRead s) +
     5 * length (queueFileCheck s) +
     sum_list (map (dirWeight opts io k) (queueDirStat s)) +
     sum_list (map (checkWeight opts io k) (queueDirCheck s)) +
     sum_list (map (statusWeight opts io k) (workers s))"

fun genRank :: "gstatus \<Rightarrow> nat" where
  "genRank GenNotStarted = 3"
| "genRank GenSuspendedYield = 2"
| "genRank GenWoken = 2"
| "genRank GenParked = 1"
| "genRank GenReturned = 0"
| "genRank (GenThrew e) = 0"

definition wokenCount :: "wstatus list \<Rightarrow> nat" where
  "wokenCount ws = length (filter (\<lambda>w. w = Woken) ws)"

text \<open>
  The rank of a state: the work left, whether \<^verbatim>\<open>isDone\<close> is still to be set, the
  woken workers that have not run yet, and how far the generator is from its end.
\<close>

definition rank :: "ExploreFileArgs \<Rightarrow> platform \<Rightarrow> nat \<Rightarrow> state \<Rightarrow> nat \<times> nat \<times> nat \<times> nat" where
  "rank opts io k s =
     (potential opts io k s, if isDone s then 0 else 1, wokenCount (workers s),
      genRank (generator s))"

definition rankOrder :: "((nat \<times> nat \<times> nat \<times> nat) \<times> (nat \<times> nat \<times> nat \<times> nat)) set" where
  "rankOrder = less_than <*lex*> less_than <*lex*> less_than <*lex*> less_than"

text \<open>Whether an iteration of the worker loop has carried out a task.\<close>

fun progress :: "outcome \<Rightarrow> nat" where
  "progress Continue = 1"
| "progress (AwaitReaddir d) = 1"
| "progress (AwaitReadFile f) = 1"
| "progress Park = 0"
| "progress Return = 0"

text \<open>
  The walk of the specification's scenario: \<^verbatim>\<open>a.txt\<close> passes, \<^verbatim>\<open>b.log\<close> fails the
  file predicate, \<^verbatim>\<open>sub/.git\<close> fails the directory predicate, \<^verbatim>\<open>sub/c.txt\<close> passes.
\<close>

definition scenario :: ExploreFileArgs where
  "scenario =
     \<lparr> rootDir = ''/r'',
       shouldExploreDir = (\<lambda>p. Inr (p \<noteq> ''/r/sub/.git'')),
       shouldReadFile = (\<lambda>f. Inr (path f \<noteq> ''/r/b.log'')),
       shouldYieldFile = None,
       workerCount = Some (Finite 2) \<rparr>"

definition scenarioDisk :: platform where
  "scenarioDisk =
     \<lparr> readdir = (\<lambda>p.
          if p = ''/r'' then
            Inr [\<lparr>name = ''a.txt'', kind = RegularFile\<rparr>,
                 \<lparr>name = ''b.log'', kind = RegularFile\<rparr>,
                 \<lparr>name = ''sub'', kind = Directory\<rparr>]
          else if p = ''/r/sub'' then
            Inr [\<lparr>name = ''.git'', kind = Directory\<rparr>,
                 \<lparr>name = ''c.txt'', kind = RegularFile\<rparr>]
          else Inl (Error ''ENOENT'')),
       readFile = (\<lambda>p. if p = ''/r/b.log'' then Inl (Error ''EACCES'') else Inr (''text of '' @ p)),
       join = (\<lambda>d n. d @ ''/'' @ n) \<rparr>"

definition scenarioWalk :: "action list" where
  "scenarioWalk =
     [Pull, SettleIO 0, ResumeWorker 1, SettleIO 1, SettleIO 0, ResumeGenerator, SettleIO 1,
      ResumeWorker 0, Pull, Pull]"

definition scenarioWalked :: state where
  "scenarioWalked =
     \<lparr>queueYieldCheck = [], queueRead = [], queueFileCheck = [],
      queueDirStat = [], queueDirCheck = [], outputBuffer = [],
      activeWorkers = 0, isDone = True, error = Null, workers = [Exited, Exited],
      generator = GenReturned,
      calls =
        [CallReaddir ''/r'', CallShouldReadFile ''/r/a.txt'',
         CallReadFile ''/r/a.txt'', CallShouldReadFile ''/r/b.log'',
         CallShouldExploreDir ''/r/sub'', CallReaddir ''/r/sub'',
         CallShouldReadFile ''/r/sub/c.txt'', CallReadFile ''/r/sub/c.txt'',
         CallShouldYieldFile ''/r/a.txt'', CallShouldExploreDir ''/r/sub/.git'',
         CallShouldYieldFile ''/r/sub/c.txt''],
      yielded =
        [\<lparr>path = ''/r/a.txt'', contents = createFileReader ''text of /r/a.txt''\<rparr>,
         \<lparr>path = ''/r/sub/c.txt'', contents = createFileReader ''text of /r/sub/c.txt''\<rparr>]\<rparr>"

text \<open>
  The set of the claim read literally, with the root counted among the ancestor
  directories that must pass \<^verbatim>\<open>shouldExploreDir\<close>.
\<close>

definition claimedPaths :: "ExploreFileArgs \<Rightarrow> platform \<Rightarrow> string set" where
  "claimedPaths opts io =
     {p. p \<in> specPaths opts io \<and> shouldExploreDir opts (rootDir opts) = Inr True}"

definition rejectedRootWalked :: state where
  "rejectedRootWalked =
     \<lparr>queueYieldCheck = [], queueRead = [], queueFileCheck = [],
      queueDirStat = [], queueDirCheck = [], outputBuffer = [],
      activeWorkers = 0, isDone = True, error = Null, workers = [Exited],
      generator = GenReturned,
      calls = [CallReaddir ''/r'', CallShouldReadFile ''/r/a'', CallReadFile ''/r/a'',
               CallShouldYieldFile ''/r/a''],
      yielded = [\<lparr>path = ''/r/a'', contents = createFileReader ''A''\<rparr>]\<rparr>"

text \<open>
  Options whose file predicate throws \<^verbatim>\<open>undefined\<close> on \<^verbatim>\<open>/r/a\<close>, and a directory
  with two readable files.
\<close>

definition undefinedThrower :: ExploreFileArgs where
  "undefinedThrower =
     \<lparr> rootDir = ''/r'',
       shouldExploreDir = (\<lambda>p. Inr True),
       shouldReadFile = (\<lambda>f. if path f = ''/r/a'' then Inl Undefined else Inr True),
       shouldYieldFile = None,
       workerCount = None \<rparr>"

definition twoFiles :: platform where
  "twoFiles =
     \<lparr> readdir = (\<lambda>p. if p = ''/r''
          then Inr [\<lparr>name = ''a'', kind = RegularFile\<rparr>, \<lparr>name = ''b'', kind = RegularFile\<rparr>]
          else Inl (Error ''ENOTDIR'')),
       readFile = (\<lambda>p. Inr (''text of '' @ p)),
       join = (\<lambda>d n. d @ ''/'' @ n) \<rparr>"

definition undefinedRecorded :: state where
  "undefinedRecorded =
     \<lparr>queueYieldCheck = [], queueRead = [], queueFileCheck = [],
      queueDirStat = [], queueDirCheck = [], outputBuffer = [],
      activeWorkers = 1, isDone = False, error = Undefined,
      workers = [AwaitingReadFile \<lparr>path = ''/r/b''\<rparr>], generator = GenWoken,
      calls = [CallReaddir ''/r'', CallShouldReadFile ''/r/a'', CallShouldReadFile ''/r/b'',
               CallReadFile ''/r/b''],
      yielded = []\<rparr>"

definition undefinedSwallowed :: state where
  "undefinedSwallowed =
     \<lparr>queueYieldCheck = [], queueRead = [], queueFileCheck = [],
      queueDirStat = [], queueDirCheck = [], outputBuffer = [],
      activeWorkers = 0, isDone = True, error = Undefined,
      workers = [Exited], generator = GenReturned,
      calls = [CallReaddir ''/r'', CallShouldReadFile ''/r/a'', CallShouldReadFile ''/r/b'',
               CallReadFile ''/r/b'', CallShouldYieldFile ''/r/b''],
      yielded = [\<lparr>path = ''/r/b'', contents = createFileReader ''text of /r/b''\<rparr>]\<rparr>"

text \<open>
  A state in which a record waits in the output buffer while the error slot is set:
  the read of \<^verbatim>\<open>/r/a\<close> has been delivered to the buffer, the read of \<^verbatim>\<open>/r/b\<close> has
  failed.
\<close>

definition bufferedThenFailed :: state where
  "bufferedThenFailed =
     \<lparr>queueYieldCheck = [], queueRead = [], queueFileCheck = [],
      queueDirStat = [], queueDirCheck = [],
      outputBuffer = [\<lparr>path = ''/r/a'', contents = createFileReader ''A''\<rparr>],
      activeWorkers = 2, isDone = False, error = Error ''EACCES b'',
      workers = [AwaitingReadFile \<lparr>path = ''/r/c''\<rparr>, Exited], generator = GenWoken,
      calls = [CallReaddir ''/r'', CallShouldReadFile ''/r/a'', CallReadFile ''/r/a'',
               CallShouldReadFile ''/r/b'', CallReadFile ''/r/b'', CallShouldYieldFile ''/r/a'',
               CallShouldReadFile ''/r/c'', CallReadFile ''/r/c''],
      yielded = []\<rparr>"

text \<open>
  What the file-system operations reject with is truthy, as the \<^verbatim>\<open>Error\<close> objects of
  \<^verbatim>\<open>node:fs\<close> are.
\<close>

definition rejectsTruthy :: "platform \<Rightarrow> bool" where
  "rejectsTruthy io \<longleftrightarrow>
     (\<forall>p e. readdir io p = Inl e \<longrightarrow> truthy e) \<and> (\<forall>p e. readFile io p = Inl e \<longrightarrow> truthy e)"

text \<open>The workers that have not left their loop.\<close>

definition liveCount :: "wstatus list \<Rightarrow> nat" where
  "liveCount ws = length (filter (\<lambda>w. w \<noteq> Exited) ws)"

text \<open>
  What is left to run once the error slot holds a truthy value: the workers that have
  not seen it yet, the records still in the buffer, and the generator's last step.
\<close>

definition remaining :: "state \<Rightarrow> nat \<times> nat" where
  "remaining s =
     (liveCount (workers s), 2 * length (outputBuffer s) + genRank (generator s))"

section \<open>A rule for the worker loop\<close>

lemma workerLoop_rule:
  assumes "P s"
    and "\<And>s. P s \<Longrightarrow> snd (workerIteration opts s) = Continue \<Longrightarrow>
           P (fst (workerIteration opts s))"
    and "\<And>s. P s \<Longrightarrow> snd (workerIteration opts s) \<noteq> Continue \<Longrightarrow>
           Q (workerIteration opts s)"
  shows "Q (workerLoop opts s)"
  using assms
proof (induction opts s rule: workerLoop.induct)
  case (1 opts s)
  show ?case
  proof (cases "snd (workerIteration opts s) = Continue")
    case True
    then have "workerLoop opts s = workerLoop opts (fst (workerIteration opts s))"
      by (subst workerLoop.simps) (simp add: Let_def)
    moreover have "Q (workerLoop opts (fst (workerIteration opts s)))"
      using "1.IH" [OF refl True] "1.prems" True by blast
    ultimately show ?thesis by simp
  next
    case False
    then have "workerLoop opts s = workerIteration opts s"
      by (subst workerLoop.simps) (simp add: Let_def)
    then show ?thesis using "1.prems" False by simp
  qed
qed

lemma workerIteration_cases
  [case_names error yieldCheck read fileCheck dirStat dirCheck noWork]:
  assumes "truthy (error s) \<Longrightarrow> workerIteration opts s = (s, Return) \<Longrightarrow> P"
    and "\<And>file rest. \<not> truthy (error s) \<Longrightarrow> queueYieldCheck s = file # rest \<Longrightarrow>
           workerIteration opts s =
             (stageYieldCheck opts file
                (called (CallShouldYieldFile (path file)) (s\<lparr>queueYieldCheck := rest\<rparr>)),
              Continue) \<Longrightarrow> P"
    and "\<And>fileCtx rest. \<not> truthy (error s) \<Longrightarrow> queueYieldCheck s = [] \<Longrightarrow>
           queueRead s = fileCtx # rest \<Longrightarrow>
           workerIteration opts s =
             (called (CallReadFile (path fileCtx)) (s\<lparr>queueRead := rest\<rparr>),
              AwaitReadFile fileCtx) \<Longrightarrow> P"
    and "\<And>fileCtx rest. \<not> truthy (error s) \<Longrightarrow> queueYieldCheck s = [] \<Longrightarrow>
           queueRead s = [] \<Longrightarrow> queueFileCheck s = fileCtx # rest \<Longrightarrow>
           workerIteration opts s =
             (stageFileCheck opts fileCtx
                (called (CallShouldReadFile (path fileCtx)) (s\<lparr>queueFileCheck := rest\<rparr>)),
              Continue) \<Longrightarrow> P"
    and "\<And>dirPath rest. \<not> truthy (error s) \<Longrightarrow> queueYieldCheck s = [] \<Longrightarrow>
           queueRead s = [] \<Longrightarrow> queueFileCheck s = [] \<Longrightarrow>
           queueDirStat s = dirPath # rest \<Longrightarrow>
           workerIteration opts s =
             (called (CallReaddir dirPath) (s\<lparr>queueDirStat := rest\<rparr>),
              AwaitReaddir dirPath) \<Longrightarrow> P"
    and "\<And>dirPath rest. \<not> truthy (error s) \<Longrightarrow> queueYieldCheck s = [] \<Longrightarrow>
           queueRead s = [] \<Longrightarrow> queueFileCheck s = [] \<Longrightarrow> queueDirStat s = [] \<Longrightarrow>
           queueDirCheck s = dirPath # rest \<Longrightarrow>
           workerIteration opts s =
             stageDirCheck opts dirPath
               (called (CallShouldExploreDir dirPath) (s\<lparr>queueDirCheck := rest\<rparr>)) \<Longrightarrow> P"
    and "\<not> truthy (error s) \<Longrightarrow> allQueuesEmpty s \<Longrightarrow>
           workerIteration opts s = noWorkAvailable s \<Longrightarrow> P"
  shows P
proof (cases "truthy (error s)")
  case True
  then show ?thesis using assms(1) by (simp add: workerIteration_def)
next
  case nt: False
  show ?thesis
  proof (cases "queueYieldCheck s")
    case (Cons f rest)
    then show ?thesis using nt assms(2) by (simp add: workerIteration_def)
  next
    case q1: Nil
    show ?thesis
    proof (cases "queueRead s")
      case (Cons fileCtx rest)
      then show ?thesis using nt q1 assms(3) by (simp add: workerIteration_def)
    next
      case q2: Nil
      show ?thesis
      proof (cases "queueFileCheck s")
        case (Cons fileCtx rest)
        then show ?thesis using nt q1 q2 assms(4) by (simp add: workerIteration_def)
      next
        case q3: Nil
        show ?thesis
        proof (cases "queueDirStat s")
          case (Cons dirPath rest)
          then show ?thesis using nt q1 q2 q3 assms(5) by (simp add: workerIteration_def)
        next
          case q4: Nil
          show ?thesis
          proof (cases "queueDirCheck s")
            case (Cons dirPath rest)
            then show ?thesis
              using nt q1 q2 q3 q4 assms(6) by (simp add: workerIteration_def)
          next
            case Nil
            then show ?thesis
              using nt q1 q2 q3 q4 assms(7)
              by (simp add: workerIteration_def allQueuesEmpty_def)
          qed
        qed
      qed
    qed
  qed
qed

lemma workerLoop_not_Continue: "snd (workerLoop opts s) \<noteq> Continue"
  by (rule workerLoop_rule [where P = "\<lambda>_. True"]) simp_all

section \<open>Validation\<close>

lemma validate_default: "workerCount opts = None \<Longrightarrow> validate opts = Inr 1"
  by (simp add: validate_def MAX_WORKER_COUNT_def)

lemma validate_positive_integer:
  assumes "workerCount opts = Some (Finite (of_nat k))" "0 < k"
  shows "validate opts = Inr (min k MAX_WORKER_COUNT)"
proof -
  have "min (of_nat k :: rat) (of_nat MAX_WORKER_COUNT) = of_nat (min k MAX_WORKER_COUNT)"
    by (simp add: min_def)
  moreover have "\<not> (of_nat k :: rat) < 1" using assms(2) by simp
  ultimately show ?thesis
    using assms(1) by (simp add: validate_def Let_def del: of_nat_min)
qed

lemma validate_Inr:
  assumes "validate opts = Inr n"
  shows "0 < n \<and> n \<le> MAX_WORKER_COUNT"
proof (cases "workerCount opts")
  case None
  then show ?thesis using assms by (simp add: validate_default MAX_WORKER_COUNT_def)
next
  case (Some w)
  show ?thesis
  proof (cases w)
    case (Finite q)
    from assms Some Finite have q: "of_int \<lfloor>q\<rfloor> = q" "\<not> q < 1"
      and n: "n = nat \<lceil>min q (of_nat MAX_WORKER_COUNT)\<rceil>"
      by (auto simp: validate_def Let_def split: if_splits)
    have "1 \<le> min q (of_nat MAX_WORKER_COUNT)"
      using q(2) by (simp add: MAX_WORKER_COUNT_def)
    then have "1 \<le> \<lceil>min q (of_nat MAX_WORKER_COUNT)\<rceil>"
      by (simp add: le_ceiling_iff)
    moreover have "\<lceil>min q (of_nat MAX_WORKER_COUNT)\<rceil> \<le> int MAX_WORKER_COUNT"
      by (simp add: ceiling_le_iff)
    ultimately show ?thesis using n by simp
  qed (use assms Some in \<open>simp_all add: validate_def\<close>)
qed

section \<open>The start of the workers\<close>

lemma runWorker_first:
  "0 < n \<Longrightarrow>
   runWorker opts 0
     ((initialState opts)\<lparr>activeWorkers := int n, workers := replicate n Starting\<rparr>)
     = afterStart opts n 1"
  apply (cases n)
   apply simp
  apply (simp add: runWorker_def afterStart_def)
  apply (subst workerLoop.simps)
  apply (simp add: workerIteration_def initialState_def called_def)
  done

lemma park_next_slot:
  assumes "0 < k" "k < n"
  shows "(x # replicate (k - Suc 0) a @ replicate (n - k) b)[k := a]
           = x # replicate k a @ replicate (n - Suc k) b"
proof -
  obtain j where j: "k = Suc j" using assms(1) by (cases k) auto
  obtain m where m: "n - Suc j = Suc m" using assms(2) j by (cases "n - Suc j") auto
  have m': "n - Suc (Suc j) = m" using m by simp
  show ?thesis
    unfolding j by (simp add: m m' list_update_append replicate_app_Cons_same)
qed

lemma runWorker_next:
  "0 < k \<Longrightarrow> k < n \<Longrightarrow> runWorker opts k (afterStart opts n k) = afterStart opts n (Suc k)"
  apply (simp add: runWorker_def afterStart_def del: list_update.simps)
  apply (subst workerLoop.simps)
  apply (simp add: workerIteration_def initialState_def noWorkAvailable_def
      allQueuesEmpty_def Let_def del: list_update.simps)
  apply (simp only: park_next_slot)
  done

lemma fold_runWorker_rest:
  "0 < k \<Longrightarrow> k \<le> n \<Longrightarrow>
   fold (runWorker opts) [k..<n] (afterStart opts n k) = afterStart opts n n"
proof (induction "n - k" arbitrary: k)
  case 0
  then show ?case by simp
next
  case (Suc d)
  then have "k < n" by simp
  then have "[k..<n] = k # [Suc k..<n]" by (simp add: upt_conv_Cons)
  then show ?case using Suc \<open>k < n\<close> by (simp add: runWorker_next)
qed

lemma startWorkers_initial:
  assumes "0 < n"
  shows "startWorkers opts n (initialState opts) = afterStart opts n n"
proof -
  have "[0..<n] = 0 # [1..<n]" using assms by (simp add: upt_conv_Cons)
  then show ?thesis
    using assms fold_runWorker_rest [of 1 n opts]
    by (simp add: startWorkers_def runWorker_first)
qed

lemma firstPull_valid:
  assumes "validate opts = Inr n"
  shows "firstPull opts (initialState opts) = (afterStart opts n n)\<lparr>generator := GenParked\<rparr>"
proof -
  have "0 < n" using validate_Inr [OF assms] by simp
  then have "firstPull opts (initialState opts) = generatorLoop (afterStart opts n n)"
    using assms by (simp add: firstPull_def startWorkers_initial)
  then show ?thesis
    by (simp add: generatorLoop_def afterStart_def initialState_def)
qed

section \<open>Frame properties of the segments\<close>

lemma wake_wake [simp]: "wake (wake w) = wake w"
  by (simp add: wake_def)

lemma wake_simps [simp]:
  "wake Parked = Woken" "wake Woken = Woken" "wake Exited = Exited"
  "wake Running = Running" "wake Starting = Starting"
  "wake (AwaitingReaddir d) = AwaitingReaddir d"
  "wake (AwaitingReadFile f) = AwaitingReadFile f"
  by (simp_all add: wake_def)

lemma workers_notifyWorkers [simp]: "workers (notifyWorkers s) = map wake (workers s)"
  by (simp add: notifyWorkers_def)

lemma generator_notifyGenerator:
  "generator (notifyGenerator s) = (if generator s = GenParked then GenWoken else generator s)"
  by (simp add: notifyGenerator_def)

definition woke :: "wstatus list \<Rightarrow> wstatus list \<Rightarrow> bool" where
  "woke ws ws' \<longleftrightarrow> ws' = ws \<or> ws' = map wake ws"

lemma woke_refl [simp]: "woke ws ws"
  by (simp add: woke_def)

lemma woke_trans: "woke a b \<Longrightarrow> woke b c \<Longrightarrow> woke a c"
  by (auto simp: woke_def)

lemma woke_length: "woke ws ws' \<Longrightarrow> length ws' = length ws"
  by (auto simp: woke_def)

lemma woke_notifyWorkers: "woke (workers s) (workers (notifyWorkers s))"
  by (simp add: woke_def)

lemma workers_stageYieldCheck [simp]:
  "workers (stageYieldCheck opts f s) = workers s"
  by (simp add: stageYieldCheck_def split: sum.splits bool.splits)

lemma workers_stageFileCheck:
  "woke (workers s) (workers (stageFileCheck opts f s))"
  by (simp add: stageFileCheck_def woke_def split: sum.splits bool.splits)

lemma workers_stageDirCheck:
  "woke (workers s) (workers (fst (stageDirCheck opts d s)))"
  by (simp add: stageDirCheck_def woke_def split: sum.splits bool.splits)

lemma workers_noWorkAvailable:
  "woke (workers s) (workers (fst (noWorkAvailable s)))"
  by (simp add: noWorkAvailable_def woke_def Let_def)

lemma workerIteration_workers:
  "woke (workers s) (workers (fst (workerIteration opts s)))"
proof (cases rule: workerIteration_cases [of s opts])
  case (fileCheck fileCtx rest)
  then show ?thesis
    using workers_stageFileCheck
      [of "called (CallShouldReadFile (path fileCtx)) (s\<lparr>queueFileCheck := rest\<rparr>)"]
    by simp
next
  case (dirCheck dirPath rest)
  then show ?thesis
    using workers_stageDirCheck
      [of "called (CallShouldExploreDir dirPath) (s\<lparr>queueDirCheck := rest\<rparr>)"]
    by simp
next
  case noWork
  then show ?thesis using workers_noWorkAvailable [of s] by simp
qed simp_all

lemma workerLoop_workers: "woke (workers s) (workers (fst (workerLoop opts s)))"
  by (rule workerLoop_rule [where P = "\<lambda>t. woke (workers s) (workers t)"])
     (auto intro: woke_trans workerIteration_workers)

lemma length_workers_runWorker [simp]:
  "length (workers (runWorker opts i s)) = length (workers s)"
  using workerLoop_workers [of "s\<lparr>workers := (workers s)[i := Running]\<rparr>" opts]
  by (simp add: runWorker_def Let_def woke_length)


definition genWoke :: "gstatus \<Rightarrow> gstatus \<Rightarrow> bool" where
  "genWoke g g' \<longleftrightarrow> g' = g \<or> (g = GenParked \<and> g' = GenWoken)"

lemma genWoke_refl [simp]: "genWoke g g"
  by (simp add: genWoke_def)

lemma genWoke_trans: "genWoke a b \<Longrightarrow> genWoke b c \<Longrightarrow> genWoke a c"
  by (auto simp: genWoke_def)

lemma genWoke_notifyGenerator: "genWoke (generator s) (generator (notifyGenerator s))"
  by (simp add: genWoke_def notifyGenerator_def)

lemma generator_stageYieldCheck:
  "genWoke (generator s) (generator (stageYieldCheck opts f s))"
  by (simp add: stageYieldCheck_def genWoke_def notifyGenerator_def split: sum.splits bool.splits)

lemma generator_stageFileCheck:
  "genWoke (generator s) (generator (stageFileCheck opts f s))"
  by (simp add: stageFileCheck_def genWoke_def notifyGenerator_def split: sum.splits bool.splits)

lemma generator_stageDirCheck:
  "genWoke (generator s) (generator (fst (stageDirCheck opts d s)))"
  by (simp add: stageDirCheck_def genWoke_def notifyGenerator_def split: sum.splits bool.splits)

lemma generator_noWorkAvailable:
  "genWoke (generator s) (generator (fst (noWorkAvailable s)))"
  by (simp add: noWorkAvailable_def genWoke_def notifyGenerator_def Let_def)

lemma workerIteration_generator:
  "genWoke (generator s) (generator (fst (workerIteration opts s)))"
proof (cases rule: workerIteration_cases [of s opts])
  case (yieldCheck f rest)
  then show ?thesis
    using generator_stageYieldCheck
      [of "called (CallShouldYieldFile (path f)) (s\<lparr>queueYieldCheck := rest\<rparr>)"]
    by simp
next
  case (fileCheck fileCtx rest)
  then show ?thesis
    using generator_stageFileCheck
      [of "called (CallShouldReadFile (path fileCtx)) (s\<lparr>queueFileCheck := rest\<rparr>)"]
    by simp
next
  case (dirCheck dirPath rest)
  then show ?thesis
    using generator_stageDirCheck
      [of "called (CallShouldExploreDir dirPath) (s\<lparr>queueDirCheck := rest\<rparr>)"]
    by simp
next
  case noWork
  then show ?thesis using generator_noWorkAvailable [of s] by simp
qed simp_all

lemma workerLoop_generator: "genWoke (generator s) (generator (fst (workerLoop opts s)))"
  by (rule workerLoop_rule [where P = "\<lambda>t. genWoke (generator s) (generator t)"])
     (auto intro: genWoke_trans workerIteration_generator)

lemma runWorker_generator: "genWoke (generator s) (generator (runWorker opts i s))"
  using workerLoop_generator [of "s\<lparr>workers := (workers s)[i := Running]\<rparr>" opts]
  by (simp add: runWorker_def Let_def)

lemma generator_generatorLoop: "generator (generatorLoop s) \<noteq> GenNotStarted"
  by (simp add: generatorLoop_def split: list.splits option.splits)

lemma generator_firstPull: "generator (firstPull opts s) \<noteq> GenNotStarted"
  by (simp add: firstPull_def generator_generatorLoop split: sum.splits)


lemma enqueueEntries_eq:
  "enqueueEntries io d es s =
     s\<lparr>queueFileCheck := queueFileCheck s @
          map (\<lambda>e. \<lparr>path = join io d (name e)\<rparr>) (filter isFile es),
       queueDirCheck := queueDirCheck s @
          map (\<lambda>e. join io d (name e)) (filter isDirectory es)\<rparr>"
proof (induction es arbitrary: s)
  case Nil
  show ?case by simp
next
  case (Cons e es)
  have "\<not> (isDirectory e \<and> isFile e)" by (simp add: isDirectory_def isFile_def)
  then show ?case by (auto simp: Cons.IH Let_def)
qed

lemma settle_generator:
  "genWoke (generator s) (generator (settleReaddir io d s))"
  "genWoke (generator s) (generator (settleReadFile io f s))"
  by (simp_all add: settleReaddir_def settleReadFile_def Let_def enqueueEntries_eq
      genWoke_def notifyGenerator_def split: sum.splits)


lemma reachable_NotStarted:
  assumes "reachable opts io s" "generator s = GenNotStarted"
  shows "s = initialState opts"
  using assms
proof (induction rule: reachable.induct)
  case initial
  show ?case by simp
next
  case (after s a s')
  show ?case
  proof (cases a)
    case Pull
    then show ?thesis using after.hyps(2) after.prems
      by (auto simp: generator_generatorLoop generator_firstPull split: gstatus.splits)
  next
    case ResumeGenerator
    then show ?thesis using after.hyps(2) after.prems
      by (auto simp: generator_generatorLoop split: gstatus.splits)
  next
    case (SettleIO i)
    then obtain t where t: "s' = runWorker opts i t" "genWoke (generator s) (generator t)"
      and i: "i < length (workers s)"
      using after.hyps(2) settle_generator [of s]
      by (auto split: if_splits wstatus.splits)
    have "genWoke (generator s) (generator s')"
      using t runWorker_generator genWoke_trans by blast
    then have "generator s = GenNotStarted" using after.prems by (auto simp: genWoke_def)
    then have "s = initialState opts" by (rule after.IH)
    then show ?thesis using i by (simp add: initialState_def)
  next
    case (ResumeWorker i)
    then have i: "i < length (workers s)"
      and "s' = runWorker opts i (s\<lparr>activeWorkers := activeWorkers s + 1\<rparr>)"
      using after.hyps(2) by (auto split: if_splits wstatus.splits)
    then have "genWoke (generator s) (generator s')"
      using runWorker_generator [of "s\<lparr>activeWorkers := activeWorkers s + 1\<rparr>" opts i] by simp
    then have "generator s = GenNotStarted" using after.prems by (auto simp: genWoke_def)
    then have "s = initialState opts" by (rule after.IH)
    then show ?thesis using i by (simp add: initialState_def)
  qed
qed

text \<open>Induction over the runs of a walker whose options pass the validation.\<close>

lemma started_induct [consumes 3, case_names start generator readdir readFile resume]:
  assumes "reachable opts io s" "generator s \<noteq> GenNotStarted" "validate opts = Inr n"
    and "P ((afterStart opts n n)\<lparr>generator := GenParked\<rparr>)"
    and "\<And>s. reachable opts io s \<Longrightarrow> P s \<Longrightarrow>
           generator s = GenSuspendedYield \<or> generator s = GenWoken \<Longrightarrow>
           P (generatorLoop s)"
    and "\<And>s i d. reachable opts io s \<Longrightarrow> P s \<Longrightarrow> i < length (workers s) \<Longrightarrow>
           workers s ! i = AwaitingReaddir d \<Longrightarrow>
           P (runWorker opts i (settleReaddir io d s))"
    and "\<And>s i f. reachable opts io s \<Longrightarrow> P s \<Longrightarrow> i < length (workers s) \<Longrightarrow>
           workers s ! i = AwaitingReadFile f \<Longrightarrow>
           P (runWorker opts i (settleReadFile io f s))"
    and "\<And>s i. reachable opts io s \<Longrightarrow> P s \<Longrightarrow> i < length (workers s) \<Longrightarrow>
           workers s ! i = Woken \<Longrightarrow>
           P (runWorker opts i (s\<lparr>activeWorkers := activeWorkers s + 1\<rparr>))"
  shows "P s"
  using assms(1,2)
proof (induction rule: reachable.induct)
  case initial
  then show ?case by (simp add: initialState_def)
next
  case (after s a s')
  have init: "generator s = GenNotStarted \<Longrightarrow> s = initialState opts"
    using after.hyps(1) by (rule reachable_NotStarted)
  show ?case
  proof (cases a)
    case Pull
    show ?thesis
    proof (cases "generator s = GenNotStarted")
      case True
      then have "s' = firstPull opts (initialState opts)"
        using after.hyps(2) Pull init by simp
      then show ?thesis using assms(3,4) by (simp add: firstPull_valid)
    next
      case False
      then have "generator s = GenSuspendedYield" "s' = generatorLoop s"
        using after.hyps(2) Pull by (auto split: gstatus.splits)
      then show ?thesis using assms(5) after.hyps(1) after.IH False by simp
    qed
  next
    case ResumeGenerator
    then have "generator s = GenWoken" "s' = generatorLoop s"
      using after.hyps(2) by (auto split: gstatus.splits)
    then show ?thesis using assms(5) after.hyps(1) after.IH by simp
  next
    case (SettleIO i)
    then have i: "i < length (workers s)" using after.hyps(2) by (auto split: if_splits)
    then have "s \<noteq> initialState opts" by (auto simp: initialState_def)
    then have P: "P s" using after.IH init by blast
    from SettleIO i after.hyps(2) consider
      (listing) d where "workers s ! i = AwaitingReaddir d"
        and "s' = runWorker opts i (settleReaddir io d s)"
    | (reading) f where "workers s ! i = AwaitingReadFile f"
        and "s' = runWorker opts i (settleReadFile io f s)"
      by (auto split: wstatus.splits)
    then show ?thesis
    proof cases
      case listing
      then show ?thesis using assms(6) after.hyps(1) P i by simp
    next
      case reading
      then show ?thesis using assms(7) after.hyps(1) P i by simp
    qed
  next
    case (ResumeWorker i)
    then have i: "i < length (workers s)" using after.hyps(2) by (auto split: if_splits)
    then have "s \<noteq> initialState opts" by (auto simp: initialState_def)
    then have P: "P s" using after.IH init by blast
    from ResumeWorker i after.hyps(2) have
      "workers s ! i = Woken" "s' = runWorker opts i (s\<lparr>activeWorkers := activeWorkers s + 1\<rparr>)"
      by (auto split: wstatus.splits)
    then show ?thesis using assms(8) after.hyps(1) P i by simp
  qed
qed

lemma workers_generatorLoop [simp]: "workers (generatorLoop s) = workers s"
  by (simp add: generatorLoop_def split: list.splits option.splits)

lemma length_workers_settle [simp]:
  "length (workers (settleReaddir io d s)) = length (workers s)"
  "length (workers (settleReadFile io f s)) = length (workers s)"
  by (simp_all add: settleReaddir_def settleReadFile_def Let_def enqueueEntries_eq
      split: sum.splits)

lemma reachable_length_workers:
  assumes "reachable opts io s" "generator s \<noteq> GenNotStarted" "validate opts = Inr n"
  shows "length (workers s) = n"
  using assms
proof (induction rule: started_induct)
  case start
  have "0 < n" using validate_Inr [OF assms(3)] by simp
  then show ?case by (simp add: afterStart_def)
qed simp_all

lemma Number_isInteger_Finite: "Number_isInteger (Finite q) \<longleftrightarrow> q \<in> \<int>"
  unfolding Number_isInteger.simps of_int_floor_cancel Ints_def by blast

lemma validate_rejects:
  assumes "workerCount opts = Some w"
    and "w = NaN \<or> w = Infinity \<or> w = NegInfinity \<or>
         (\<exists>q. w = Finite q \<and> (q = 0 \<or> q < 0 \<or> q \<notin> \<int>))"
  shows "validate opts = Inl invalidWorkerCount"
proof -
  have "\<not> Number_isInteger w \<or> lessThanOne w"
  proof (cases w)
    case (Finite q)
    then have "q = 0 \<or> q < 0 \<or> q \<notin> \<int>" using assms(2) by simp
    then show ?thesis unfolding Finite Number_isInteger_Finite by auto
  qed simp_all
  then show ?thesis using assms(1) by (simp add: validate_def)
qed

lemma half_not_integer: "(1 / 2 :: rat) \<notin> \<int>"
proof
  assume "(1 / 2 :: rat) \<in> \<int>"
  then obtain k :: int where "(1 / 2 :: rat) = of_int k" by (auto simp: Ints_def)
  then have "(of_int (2 * k) :: rat) = of_int 1" by simp
  then have "2 * k = 1" by (simp only: of_int_eq_iff)
  then show False by presburger
qed

lemma workerIteration_error_set:
  "truthy (error s) \<Longrightarrow> workerIteration opts s = (s, Return)"
  by (simp add: workerIteration_def)

lemma workerLoop_error_set:
  "truthy (error s) \<Longrightarrow> workerLoop opts s = (s, Return)"
  by (subst workerLoop.simps) (simp add: workerIteration_error_set)

lemma yieldCheck_throws:
  assumes "\<not> truthy (error s)" "queueYieldCheck s = file # files"
    "yieldPredicate opts file = Inl e"
  shows "snd (workerIteration opts s) = Continue \<and>
         error (fst (workerIteration opts s)) = e"
  using assms by (simp add: workerIteration_def stageYieldCheck_def)

lemma fileCheck_throws:
  assumes "\<not> truthy (error s)" "queueYieldCheck s = []" "queueRead s = []"
    "queueFileCheck s = fileCtx # ctxs" "shouldReadFile opts fileCtx = Inl e"
  shows "snd (workerIteration opts s) = Continue \<and>
         error (fst (workerIteration opts s)) = e"
  using assms by (simp add: workerIteration_def stageFileCheck_def)

lemma dirCheck_throws:
  assumes "\<not> truthy (error s)" "queueYieldCheck s = []" "queueRead s = []"
    "queueFileCheck s = []" "queueDirStat s = []" "queueDirCheck s = dirPath # dirs"
    "shouldExploreDir opts dirPath = Inl e"
  shows "snd (workerIteration opts s) = Return \<and>
         error (fst (workerIteration opts s)) = e"
  using assms by (simp add: workerIteration_def stageDirCheck_def)

lemma settleReadFile_rejected:
  "readFile io (path fileCtx) = Inl e \<Longrightarrow> error (settleReadFile io fileCtx s) = e"
  by (simp add: settleReadFile_def)

lemma settleReaddir_rejected:
  "readdir io dirPath = Inl e \<Longrightarrow> error (settleReaddir io dirPath s) = e"
  by (simp add: settleReaddir_def)

section \<open>Counting the active workers\<close>

lemma busy_wake [simp]: "busy (wake w) = busy w"
  by (cases w) (simp_all add: wake_def)

lemma busyCount_wake [simp]: "busyCount (map wake ws) = busyCount ws"
  unfolding busyCount_def by (induction ws) simp_all

lemma busyCount_update:
  "i < length ws \<Longrightarrow>
   int (busyCount (ws[i := w])) =
     int (busyCount ws) - (if busy (ws ! i) then 1 else 0) + (if busy w then 1 else 0)"
  unfolding busyCount_def
proof (induction ws arbitrary: i)
  case Nil
  then show ?case by simp
next
  case (Cons x xs)
  show ?case
  proof (cases i)
    case 0
    then show ?thesis by simp
  next
    case (Suc j)
    then have "j < length xs" using Cons.prems by simp
    from Cons.IH [OF this] show ?thesis using Suc
      by (cases "busy (xs ! j)"; cases "busy w"; simp)
  qed
qed

lemma busyCount_none: "busyCount ws = 0 \<longleftrightarrow> (\<forall>w \<in> set ws. \<not> busy w)"
  unfolding busyCount_def by (induction ws) auto

lemma busyCount_pos: "i < length ws \<Longrightarrow> busy (ws ! i) \<Longrightarrow> 1 \<le> busyCount ws"
  using busyCount_none [of ws] nth_mem [of i ws] by (cases "busyCount ws") auto

lemma not_busy_wake: "\<not> busy w \<Longrightarrow> wake w = Woken \<or> wake w = Exited"
  by (cases w) simp_all

lemma inSegment_not_done:
  "inSegment i s \<Longrightarrow> \<not> allQueuesEmpty s \<Longrightarrow> \<not> isDone s"
  by (auto simp: inSegment_def)

lemma inSegment_busy:
  assumes "inSegment i s"
  shows "1 \<le> busyCount (workers s)"
proof -
  have "busy (workers s ! i)" "i < length (workers s)"
    using assms by (simp_all add: inSegment_def)
  then show ?thesis using busyCount_pos by blast
qed

lemma inSegment_active:
  assumes "inSegment i s"
  shows "1 \<le> activeWorkers s"
  using inSegment_busy [OF assms] assms by (simp add: inSegment_def counted_def)

text \<open>A stage that pops a task and continues keeps what holds while the worker runs.\<close>

lemma inSegment_stage:
  assumes "inSegment i s" "\<not> allQueuesEmpty s"
    and "activeWorkers s' = activeWorkers s" "isDone s' = isDone s"
    and "woke (workers s) (workers s')"
  shows "inSegment i s'"
proof -
  have nd: "\<not> isDone s" using assms(1,2) by (rule inSegment_not_done)
  have i: "i < length (workers s)" "workers s ! i = Running"
    using assms(1) by (simp_all add: inSegment_def)
  have "workers s' ! i = Running" "length (workers s') = length (workers s)"
    "busyCount (workers s') = busyCount (workers s)"
    using assms(5) i by (auto simp: woke_def)
  moreover have "int (busyCount (workers s)) \<le> activeWorkers s"
    using assms(1) by (simp add: inSegment_def counted_def)
  ultimately show ?thesis
    using nd i assms(3,4) by (simp add: inSegment_def counted_def)
qed

lemma inSegment_Continue:
  assumes "inSegment i s" "snd (workerIteration opts s) = Continue"
  shows "inSegment i (fst (workerIteration opts s))"
proof (cases rule: workerIteration_cases [of s opts])
  case error
  then show ?thesis using assms(2) by simp
next
  case (yieldCheck f rest)
  have nq: "\<not> allQueuesEmpty s" using yieldCheck(2) by (simp add: allQueuesEmpty_def)
  show ?thesis
    by (rule inSegment_stage [OF assms(1) nq])
       (simp_all add: yieldCheck(3) stageYieldCheck_def split: sum.splits bool.splits)
next
  case (read fileCtx rest)
  then show ?thesis using assms(2) by simp
next
  case (fileCheck fileCtx rest)
  have nq: "\<not> allQueuesEmpty s" using fileCheck(4) by (simp add: allQueuesEmpty_def)
  show ?thesis
    by (rule inSegment_stage [OF assms(1) nq])
       (simp_all add: fileCheck(5) stageFileCheck_def woke_def split: sum.splits bool.splits)
next
  case (dirStat dirPath rest)
  then show ?thesis using assms(2) by simp
next
  case (dirCheck dirPath rest)
  have nq: "\<not> allQueuesEmpty s" using dirCheck(6) by (simp add: allQueuesEmpty_def)
  show ?thesis
    by (rule inSegment_stage [OF assms(1) nq])
       (simp_all add: dirCheck(7) stageDirCheck_def woke_def split: sum.splits bool.splits)
next
  case noWork
  then show ?thesis using assms(2) by (simp add: noWorkAvailable_def Let_def split: if_splits)
qed

text \<open>The worker suspends on a file-system operation.\<close>

lemma atRest_await:
  assumes "inSegment i s" "\<not> allQueuesEmpty s" "\<not> truthy (error s)"
    and "activeWorkers s' = activeWorkers s" "isDone s' = isDone s" "error s' = error s"
    and "workers s' = (workers s)[i := w]" "busy w"
  shows "atRest s'"
proof -
  have nd: "\<not> isDone s" using assms(1,2) by (rule inSegment_not_done)
  have act: "1 \<le> activeWorkers s" using assms(1) by (rule inSegment_active)
  have i: "i < length (workers s)" "workers s ! i = Running"
    using assms(1) by (simp_all add: inSegment_def)
  have "int (busyCount (workers s')) = int (busyCount (workers s))"
    using busyCount_update [OF i(1), of w] i(2) assms(7,8) by simp
  moreover have "int (busyCount (workers s)) \<le> activeWorkers s"
    using assms(1) by (simp add: inSegment_def counted_def)
  ultimately show ?thesis
    using nd act assms(3,4,5,6) by (simp add: atRest_def counted_def)
qed

text \<open>
  The worker leaves its loop on an error: it is gone, and \<^verbatim>\<open>activeWorkers\<close> still
  counts it.
\<close>

lemma atRest_failed:
  assumes "inSegment i s" "\<not> isDone s"
    and "activeWorkers s' = activeWorkers s" "isDone s' = isDone s"
    and "workers s' = (workers s)[i := Exited]"
  shows "atRest s'"
proof -
  have act: "1 \<le> activeWorkers s" using assms(1) by (rule inSegment_active)
  have i: "i < length (workers s)" "workers s ! i = Running"
    using assms(1) by (simp_all add: inSegment_def)
  have "int (busyCount (workers s')) = int (busyCount (workers s)) - 1"
    using busyCount_update [OF i(1), of Exited] i(2) assms(5) by simp
  moreover have "int (busyCount (workers s)) \<le> activeWorkers s"
    using assms(1) by (simp add: inSegment_def counted_def)
  ultimately show ?thesis
    using act assms(2,3,4) by (simp add: atRest_def counted_def)
qed

lemma atRest_noWork:
  assumes "inSegment i s" "\<not> truthy (error s)" "allQueuesEmpty s"
  shows "atRest ((fst (noWorkAvailable s))
           \<lparr>workers := (workers (fst (noWorkAvailable s)))[i := statusAfter (snd (noWorkAvailable s))]\<rparr>)"
proof -
  have i: "i < length (workers s)" "workers s ! i = Running"
    using assms(1) by (simp_all add: inSegment_def)
  have le: "int (busyCount (workers s)) \<le> activeWorkers s"
    using assms(1) by (simp add: inSegment_def counted_def)
  have pos: "1 \<le> busyCount (workers s)" using assms(1) by (rule inSegment_busy)
  have upd: "int (busyCount ((workers s)[i := w])) = int (busyCount (workers s)) - 1"
    if "\<not> busy w" for w
    using busyCount_update [OF i(1), of w] i(2) that by simp
  show ?thesis
  proof (cases "activeWorkers s - 1 = 0")
    case True
    then have "busyCount (workers s) = 1" using le pos by simp
    then have zero: "busyCount ((workers s)[i := Exited]) = 0"
      using upd [of Exited] by simp
    then have "\<forall>w \<in> set ((workers s)[i := Exited]). \<not> busy w"
      by (simp only: busyCount_none)
    then have "\<forall>w \<in> set (map wake ((workers s)[i := Exited])). w = Woken \<or> w = Exited"
      using not_busy_wake by auto
    moreover have "(map wake (workers s))[i := Exited] = map wake ((workers s)[i := Exited])"
      by (simp add: map_update)
    moreover have "busyCount (map wake ((workers s)[i := Exited])) = 0"
      using zero by simp
    ultimately show ?thesis
      using True assms(2,3)
      by (simp add: noWorkAvailable_def Let_def atRest_def counted_def allQueuesEmpty_def)
  next
    case False
    have nd: "\<not> isDone s"
    proof
      assume d: "isDone s"
      then have "\<forall>j < length (workers s). j \<noteq> i \<longrightarrow> \<not> busy (workers s ! j)"
        using assms(1) by (auto simp: inSegment_def)
      then have "\<forall>w \<in> set ((workers s)[i := Exited]). \<not> busy w"
        using i(1) by (auto simp: set_conv_nth nth_list_update)
      then have "busyCount ((workers s)[i := Exited]) = 0"
        by (simp only: busyCount_none)
      then have "busyCount (workers s) = 1" using upd [of Exited] by simp
      moreover have "\<not> int (busyCount (workers s)) < activeWorkers s"
        using assms(1) d by (auto simp: inSegment_def counted_def)
      ultimately show False using le False by simp
    qed
    have "0 \<le> activeWorkers s - 1" using le pos by simp
    then have "1 \<le> activeWorkers s - 1" using False by simp
    then show ?thesis
      using False nd assms(2) upd [of Parked] le
      by (simp add: noWorkAvailable_def Let_def atRest_def counted_def)
  qed
qed

lemma atRest_exit:
  assumes "inSegment i s" "snd (workerIteration opts s) \<noteq> Continue"
  shows "atRest ((fst (workerIteration opts s))
           \<lparr>workers := (workers (fst (workerIteration opts s)))
                         [i := statusAfter (snd (workerIteration opts s))]\<rparr>)"
proof (cases rule: workerIteration_cases [of s opts])
  case error
  have nd: "\<not> isDone s" using assms(1) error(1) by (simp add: inSegment_def counted_def)
  show ?thesis
    by (rule atRest_failed [OF assms(1) nd]) (simp_all add: error)
next
  case (yieldCheck f rest)
  then show ?thesis using assms(2) by simp
next
  case (read fileCtx rest)
  have nq: "\<not> allQueuesEmpty s" using read(3) by (simp add: allQueuesEmpty_def)
  show ?thesis
    by (rule atRest_await [OF assms(1) nq read(1), where w = "AwaitingReadFile fileCtx"])
       (simp_all add: read)
next
  case (fileCheck fileCtx rest)
  then show ?thesis using assms(2) by simp
next
  case (dirStat dirPath rest)
  have nq: "\<not> allQueuesEmpty s" using dirStat(5) by (simp add: allQueuesEmpty_def)
  show ?thesis
    by (rule atRest_await [OF assms(1) nq dirStat(1), where w = "AwaitingReaddir dirPath"])
       (simp_all add: dirStat)
next
  case (dirCheck dirPath rest)
  have nq: "\<not> allQueuesEmpty s" using dirCheck(6) by (simp add: allQueuesEmpty_def)
  then have nd: "\<not> isDone s" using assms(1) inSegment_not_done by blast
  obtain e where e: "shouldExploreDir opts dirPath = Inl e"
    using assms(2) dirCheck(7)
    by (cases "shouldExploreDir opts dirPath") (auto simp: stageDirCheck_def split: bool.splits)
  show ?thesis
    by (rule atRest_failed [OF assms(1) nd]) (simp_all add: dirCheck(7) stageDirCheck_def e)
next
  case noWork
  show ?thesis unfolding noWork(3) using assms(1) noWork(1,2) by (rule atRest_noWork)
qed

lemma atRest_runWorker:
  assumes "inSegment i (s\<lparr>workers := (workers s)[i := Running]\<rparr>)"
  shows "atRest (runWorker opts i s)"
  unfolding runWorker_def Let_def
  by (rule workerLoop_rule [where P = "inSegment i"])
     (simp_all add: assms inSegment_Continue atRest_exit)

lemma atRest_busy_not_done:
  assumes "atRest s" "i < length (workers s)" "busy (workers s ! i)"
  shows "\<not> isDone s"
proof
  assume "isDone s"
  then have "\<forall>w \<in> set (workers s). w = Woken \<or> w = Exited"
    using assms(1) by (simp add: atRest_def)
  then have "workers s ! i = Woken \<or> workers s ! i = Exited"
    using assms(2) nth_mem by blast
  then show False using assms(3) by auto
qed

text \<open>A settled file-system operation hands the state to the worker's loop.\<close>

lemma inSegment_settled:
  assumes "atRest s" "i < length (workers s)" "busy (workers s ! i)"
    and "activeWorkers s' = activeWorkers s" "isDone s' = isDone s"
    and "woke (workers s) (workers s')"
  shows "inSegment i (s'\<lparr>workers := (workers s')[i := Running]\<rparr>)"
proof -
  have nd: "\<not> isDone s" using assms(1,2,3) by (rule atRest_busy_not_done)
  have len: "length (workers s') = length (workers s)"
    using assms(6) by (rule woke_length)
  have "busy (workers s' ! i)" using assms(2,3,6) by (auto simp: woke_def)
  then have "int (busyCount ((workers s')[i := Running])) = int (busyCount (workers s'))"
    using busyCount_update [of i "workers s'" Running] assms(2) len by simp
  moreover have "busyCount (workers s') = busyCount (workers s)"
    using assms(6) by (auto simp: woke_def)
  moreover have "int (busyCount (workers s)) \<le> activeWorkers s"
    using assms(1) by (simp add: atRest_def counted_def)
  ultimately show ?thesis
    using nd len assms(2,4,5) by (simp add: inSegment_def counted_def)
qed

lemma atRest_settleReaddir:
  assumes "atRest s" "i < length (workers s)" "workers s ! i = AwaitingReaddir d"
  shows "atRest (runWorker opts i (settleReaddir io d s))"
proof (rule atRest_runWorker, rule inSegment_settled [OF assms(1,2)])
  show "busy (workers s ! i)" using assms(3) by simp
qed (simp_all add: settleReaddir_def enqueueEntries_eq woke_def Let_def split: sum.splits)

lemma atRest_settleReadFile:
  assumes "atRest s" "i < length (workers s)" "workers s ! i = AwaitingReadFile f"
  shows "atRest (runWorker opts i (settleReadFile io f s))"
proof (rule atRest_runWorker, rule inSegment_settled [OF assms(1,2)])
  show "busy (workers s ! i)" using assms(3) by simp
qed (simp_all add: settleReadFile_def woke_def split: sum.splits)

lemma atRest_done_idle:
  assumes "atRest s" "isDone s"
  shows "busyCount (workers s) = 0 \<and> activeWorkers s = 0 \<and> \<not> truthy (error s)"
proof -
  have "\<forall>w \<in> set (workers s). \<not> busy w"
    using assms by (auto simp: atRest_def)
  then have "busyCount (workers s) = 0" by (simp only: busyCount_none)
  then show ?thesis using assms by (auto simp: atRest_def counted_def)
qed

lemma inSegment_resume:
  assumes "atRest s" "i < length (workers s)" "workers s ! i = Woken"
  shows "inSegment i
           (s\<lparr>activeWorkers := activeWorkers s + 1, workers := (workers s)[i := Running]\<rparr>)"
proof -
  have "int (busyCount ((workers s)[i := Running])) = int (busyCount (workers s)) + 1"
    using busyCount_update [OF assms(2), of Running] assms(3) by simp
  moreover have "isDone s \<longrightarrow> (\<forall>j < length (workers s). workers s ! j = Woken \<or> workers s ! j = Exited)"
    using assms(1) by (auto simp: atRest_def)
  ultimately show ?thesis
    using assms by (auto simp: inSegment_def atRest_def counted_def allQueuesEmpty_def)
qed

lemma atRest_resume:
  assumes "atRest s" "i < length (workers s)" "workers s ! i = Woken"
  shows "atRest (runWorker opts i (s\<lparr>activeWorkers := activeWorkers s + 1\<rparr>))"
  by (rule atRest_runWorker) (use inSegment_resume [OF assms] in simp)

lemma atRest_generatorLoop: "atRest s \<Longrightarrow> atRest (generatorLoop s)"
  by (auto simp: generatorLoop_def atRest_def counted_def allQueuesEmpty_def
      split: list.splits)

lemma atRest_afterStart:
  assumes "0 < n"
  shows "atRest ((afterStart opts n n)\<lparr>generator := GenParked\<rparr>)"
proof -
  have "busyCount (AwaitingReaddir (rootDir opts) # replicate (n - 1) Parked) = 1"
    by (simp add: busyCount_def)
  then show ?thesis
    by (simp add: atRest_def counted_def afterStart_def initialState_def)
qed

lemma reachable_atRest:
  assumes "reachable opts io s" "generator s \<noteq> GenNotStarted" "validate opts = Inr n"
  shows "atRest s"
  using assms
proof (induction rule: started_induct)
  case start
  have "0 < n" using validate_Inr [OF assms(3)] by simp
  then show ?case by (rule atRest_afterStart)
qed (simp_all add: atRest_generatorLoop atRest_settleReaddir atRest_settleReadFile atRest_resume)

lemma run_append:
  "run opts io (as @ bs) s = (case run opts io as s of None \<Rightarrow> None | Some s' \<Rightarrow> run opts io bs s')"
  by (induction as arbitrary: s) (simp_all split: option.splits)

lemma reachable_run:
  "reachable opts io s \<Longrightarrow> run opts io as s = Some s' \<Longrightarrow> reachable opts io s'"
proof (induction as arbitrary: s)
  case Nil
  then show ?case by simp
next
  case (Cons a as)
  then show ?case by (auto split: option.splits intro: reachable.after)
qed

lemma reachable_invalid:
  assumes "reachable opts io s" "validate opts = Inl e"
  shows "s = initialState opts \<or> s = (initialState opts)\<lparr>generator := GenThrew e\<rparr>"
  using assms(1)
proof (induction rule: reachable.induct)
  case initial
  show ?case by simp
next
  case (after s a s')
  from after.IH show ?case
  proof
    assume "s = initialState opts"
    then show ?thesis using after.hyps(2) assms(2)
      by (cases a) (auto simp: initialState_def firstPull_def)
  next
    assume "s = (initialState opts)\<lparr>generator := GenThrew e\<rparr>"
    then show ?thesis using after.hyps(2)
      by (cases a) (auto simp: initialState_def)
  qed
qed

lemma atRest_done_iff:
  assumes "atRest s"
  shows "isDone s \<longleftrightarrow> allQueuesEmpty s \<and> activeWorkers s = 0"
proof
  assume d: "isDone s"
  then show "allQueuesEmpty s \<and> activeWorkers s = 0"
    using assms atRest_done_idle [OF assms d] by (simp add: atRest_def)
next
  assume "allQueuesEmpty s \<and> activeWorkers s = 0"
  then show "isDone s" using assms by (auto simp: atRest_def)
qed

lemma runWorker_error_set:
  assumes "truthy (error s)"
  shows "runWorker opts i s = s\<lparr>workers := (workers s)[i := Exited]\<rparr>"
proof -
  have "truthy (error (s\<lparr>workers := (workers s)[i := Running]\<rparr>))" using assms by simp
  then show ?thesis by (simp add: runWorker_def workerLoop_error_set)
qed

lemma settleReaddir_error:
  "error (settleReaddir io d s) = (case readdir io d of Inl e \<Rightarrow> e | Inr es \<Rightarrow> error s)"
  by (simp add: settleReaddir_def enqueueEntries_eq Let_def split: sum.splits)

lemma settleReadFile_error:
  "error (settleReadFile io f s) = (case readFile io (path f) of Inl e \<Rightarrow> e | Inr b \<Rightarrow> error s)"
  by (simp add: settleReadFile_def split: sum.splits)

lemma settle_frame [simp]:
  "outputBuffer (settleReaddir io d s) = outputBuffer s"
  "outputBuffer (settleReadFile io f s) = outputBuffer s"
  "calls (settleReaddir io d s) = calls s"
  "calls (settleReadFile io f s) = calls s"
  "isDone (settleReaddir io d s) = isDone s"
  "isDone (settleReadFile io f s) = isDone s"
  "activeWorkers (settleReaddir io d s) = activeWorkers s"
  "activeWorkers (settleReadFile io f s) = activeWorkers s"
  "yielded (settleReaddir io d s) = yielded s"
  "yielded (settleReadFile io f s) = yielded s"
  by (simp_all add: settleReaddir_def settleReadFile_def enqueueEntries_eq Let_def
      split: sum.splits)

section \<open>The paths a run mentions\<close>

lemma statusPaths_wake [simp]: "statusPaths (wake w) = statusPaths w"
  by (cases w) simp_all

lemma pendingPaths_wake [simp]: "pendingPaths (map wake ws) = pendingPaths ws"
  by (simp add: pendingPaths_def)

lemma pendingPaths_update: "pendingPaths (ws[i := w]) \<subseteq> pendingPaths ws \<union> statusPaths w"
  using set_update_subset_insert [of ws i w] by (auto simp: pendingPaths_def)

lemma pendingPaths_woke: "woke ws ws' \<Longrightarrow> pendingPaths ws' = pendingPaths ws"
  by (auto simp: woke_def)

lemma statusPaths_statusAfter [simp]: "statusPaths (statusAfter oc) = outcomePaths oc"
  by (cases oc) simp_all

lemma mentioned_notifyWorkers [simp]: "mentioned (notifyWorkers s) = mentioned s"
  by (simp add: mentioned_def)

lemma mentioned_notifyGenerator [simp]: "mentioned (notifyGenerator s) = mentioned s"
  by (simp add: mentioned_def notifyGenerator_def)

lemma mentioned_stageYieldCheck:
  "mentioned (stageYieldCheck opts f s) \<subseteq> insert (path f) (mentioned s)"
proof (cases "yieldPredicate opts f")
  case (Inl e)
  then show ?thesis
    by (simp add: stageYieldCheck_def) (auto simp: mentioned_def)
next
  case (Inr b)
  then show ?thesis
    by (cases b) (auto simp: stageYieldCheck_def mentioned_def)
qed

lemma mentioned_stageFileCheck:
  "mentioned (stageFileCheck opts f s) \<subseteq> insert (path f) (mentioned s)"
proof (cases "shouldReadFile opts f")
  case (Inl e)
  then show ?thesis
    by (simp add: stageFileCheck_def) (auto simp: mentioned_def)
next
  case (Inr b)
  then show ?thesis
    by (cases b) (auto simp: stageFileCheck_def mentioned_def)
qed

lemma mentioned_stageDirCheck:
  "mentioned (fst (stageDirCheck opts d s)) \<subseteq> insert d (mentioned s)"
  "outcomePaths (snd (stageDirCheck opts d s)) = {}"
proof -
  show "mentioned (fst (stageDirCheck opts d s)) \<subseteq> insert d (mentioned s)"
  proof (cases "shouldExploreDir opts d")
    case (Inl e)
    then show ?thesis
      by (simp add: stageDirCheck_def) (auto simp: mentioned_def)
  next
    case (Inr b)
    then show ?thesis
      by (cases b) (auto simp: stageDirCheck_def mentioned_def)
  qed
  show "outcomePaths (snd (stageDirCheck opts d s)) = {}"
    by (simp add: stageDirCheck_def split: sum.splits bool.splits)
qed

lemma mentioned_noWorkAvailable:
  "mentioned (fst (noWorkAvailable s)) = mentioned s"
  "outcomePaths (snd (noWorkAvailable s)) = {}"
  by (simp_all add: noWorkAvailable_def Let_def) (simp add: mentioned_def)

text \<open>An iteration of the worker loop mentions no path that was not mentioned before.\<close>

lemma mentioned_workerIteration:
  "mentioned (fst (workerIteration opts s)) \<union> outcomePaths (snd (workerIteration opts s))
     \<subseteq> mentioned s"
proof (cases rule: workerIteration_cases [of s opts])
  case error
  then show ?thesis by simp
next
  case (yieldCheck f rest)
  have "path f \<in> mentioned s" using yieldCheck(2) by (simp add: mentioned_def)
  moreover have "mentioned (called (CallShouldYieldFile (path f)) (s\<lparr>queueYieldCheck := rest\<rparr>))
      \<subseteq> mentioned s"
    using yieldCheck(2) by (auto simp: mentioned_def)
  ultimately show ?thesis
    using mentioned_stageYieldCheck
      [of opts f "called (CallShouldYieldFile (path f)) (s\<lparr>queueYieldCheck := rest\<rparr>)"]
    by (auto simp: yieldCheck(3))
next
  case (read fileCtx rest)
  then show ?thesis by (auto simp: mentioned_def)
next
  case (fileCheck fileCtx rest)
  have "path fileCtx \<in> mentioned s" using fileCheck(4) by (simp add: mentioned_def)
  moreover have "mentioned (called (CallShouldReadFile (path fileCtx)) (s\<lparr>queueFileCheck := rest\<rparr>))
      \<subseteq> mentioned s"
    using fileCheck(4) by (auto simp: mentioned_def)
  ultimately show ?thesis
    using mentioned_stageFileCheck
      [of opts fileCtx "called (CallShouldReadFile (path fileCtx)) (s\<lparr>queueFileCheck := rest\<rparr>)"]
    by (auto simp: fileCheck(5))
next
  case (dirStat dirPath rest)
  then show ?thesis by (auto simp: mentioned_def)
next
  case (dirCheck dirPath rest)
  have "dirPath \<in> mentioned s" using dirCheck(6) by (simp add: mentioned_def)
  moreover have "mentioned (called (CallShouldExploreDir dirPath) (s\<lparr>queueDirCheck := rest\<rparr>))
      \<subseteq> mentioned s"
    using dirCheck(6) by (auto simp: mentioned_def)
  ultimately show ?thesis
    using mentioned_stageDirCheck
      [of opts dirPath "called (CallShouldExploreDir dirPath) (s\<lparr>queueDirCheck := rest\<rparr>)"]
    by (auto simp: dirCheck(7))
next
  case noWork
  then show ?thesis by (simp add: mentioned_noWorkAvailable)
qed

lemma mentioned_workerLoop:
  "mentioned (fst (workerLoop opts s)) \<union> outcomePaths (snd (workerLoop opts s)) \<subseteq> mentioned s"
proof (rule workerLoop_rule [where P = "\<lambda>t. mentioned t \<subseteq> mentioned s"])
  show "mentioned s \<subseteq> mentioned s" by simp
next
  fix t assume "mentioned t \<subseteq> mentioned s"
  then show "mentioned (fst (workerIteration opts t)) \<subseteq> mentioned s"
    using mentioned_workerIteration [of opts t] by blast
next
  fix t assume "mentioned t \<subseteq> mentioned s"
  then show "mentioned (fst (workerIteration opts t)) \<union> outcomePaths (snd (workerIteration opts t))
      \<subseteq> mentioned s"
    using mentioned_workerIteration [of opts t] by blast
qed

lemma mentioned_workers_update:
  "mentioned (s\<lparr>workers := (workers s)[i := w]\<rparr>) \<subseteq> mentioned s \<union> statusPaths w"
  using pendingPaths_update [of "workers s" i w] by (auto simp: mentioned_def)

lemma mentioned_runWorker: "mentioned (runWorker opts i s) \<subseteq> mentioned s"
proof -
  let ?s = "s\<lparr>workers := (workers s)[i := Running]\<rparr>"
  let ?r = "workerLoop opts ?s"
  have "mentioned (runWorker opts i s) \<subseteq> mentioned (fst ?r) \<union> outcomePaths (snd ?r)"
    using mentioned_workers_update [of "fst ?r" i "statusAfter (snd ?r)"]
    by (simp add: runWorker_def Let_def)
  also have "\<dots> \<subseteq> mentioned ?s" by (rule mentioned_workerLoop)
  also have "\<dots> \<subseteq> mentioned s" using mentioned_workers_update [of s i Running] by simp
  finally show ?thesis .
qed


lemma mentioned_generatorLoop: "mentioned (generatorLoop s) \<subseteq> mentioned s"
  by (auto simp: generatorLoop_def mentioned_def split: list.splits option.splits)

lemma pendingPaths_nth:
  assumes "i < length ws"
  shows "statusPaths (ws ! i) \<subseteq> pendingPaths ws"
proof -
  have "ws ! i \<in> set ws" using assms by simp
  then show ?thesis unfolding pendingPaths_def by blast
qed

lemma mentioned_settleReadFile:
  assumes "i < length (workers s)" "workers s ! i = AwaitingReadFile f"
  shows "mentioned (settleReadFile io f s) \<subseteq> mentioned s"
proof -
  have "path f \<in> mentioned s"
    using pendingPaths_nth [OF assms(1)] assms(2) by (auto simp: mentioned_def)
  then show ?thesis
    by (cases "readFile io (path f)") (auto simp: settleReadFile_def mentioned_def)
qed

lemma mentioned_settleReaddir:
  "mentioned (settleReaddir io d s) \<subseteq> mentioned s \<union> walkable opts io"
proof (cases "readdir io d")
  case (Inl e)
  then show ?thesis by (auto simp: settleReaddir_def mentioned_def)
next
  case (Inr entries)
  have "join io d (name entry) \<in> walkable opts io"
    if "entry \<in> set entries" "isDirectory entry \<or> isFile entry" for entry
    using that Inr by (auto simp: walkable_def)
  then show ?thesis
    using Inr by (auto simp: settleReaddir_def enqueueEntries_eq mentioned_def Let_def)
qed

lemma mentioned_firstPull:
  "mentioned (firstPull opts (initialState opts)) \<subseteq> {rootDir opts}"
proof (cases "validate opts")
  case (Inl e)
  then show ?thesis
    by (simp add: firstPull_def) (simp add: mentioned_def initialState_def pendingPaths_def)
next
  case (Inr n)
  have "pendingPaths (AwaitingReaddir (rootDir opts) # replicate (n - Suc 0) Parked)
          = {rootDir opts}"
    by (auto simp: pendingPaths_def)
  then show ?thesis
    using Inr
    by (simp add: firstPull_valid) (simp add: mentioned_def afterStart_def initialState_def)
qed

lemma reachable_mentioned:
  assumes "reachable opts io s"
  shows "mentioned s \<subseteq> walkable opts io"
  using assms
proof (induction rule: reachable.induct)
  case initial
  show ?case by (simp add: mentioned_def initialState_def walkable_def pendingPaths_def)
next
  case (after s a s')
  note init = reachable_NotStarted [OF after.hyps(1)]
  show ?case
  proof (cases a)
    case Pull
    show ?thesis
    proof (cases "generator s = GenNotStarted")
      case True
      then have "s' = firstPull opts (initialState opts)"
        using after.hyps(2) Pull init by simp
      then show ?thesis using mentioned_firstPull [of opts] by (auto simp: walkable_def)
    next
      case False
      then have "s' = generatorLoop s" using after.hyps(2) Pull by (auto split: gstatus.splits)
      then show ?thesis using after.IH mentioned_generatorLoop [of s] by blast
    qed
  next
    case ResumeGenerator
    then have "s' = generatorLoop s" using after.hyps(2) by (auto split: gstatus.splits)
    then show ?thesis using after.IH mentioned_generatorLoop [of s] by blast
  next
    case (SettleIO i)
    then have i: "i < length (workers s)" using after.hyps(2) by (auto split: if_splits)
    from SettleIO i after.hyps(2) consider
      (listing) d where "workers s ! i = AwaitingReaddir d"
        and "s' = runWorker opts i (settleReaddir io d s)"
    | (reading) f where "workers s ! i = AwaitingReadFile f"
        and "s' = runWorker opts i (settleReadFile io f s)"
      by (auto split: wstatus.splits)
    then show ?thesis
    proof cases
      case listing
      then show ?thesis
        using after.IH mentioned_settleReaddir [of io d s opts]
          mentioned_runWorker [of opts i "settleReaddir io d s"] by blast
    next
      case reading
      then show ?thesis
        using after.IH mentioned_settleReadFile [OF i reading(1), of io]
          mentioned_runWorker [of opts i "settleReadFile io f s"] by blast
    qed
  next
    case (ResumeWorker i)
    then have "s' = runWorker opts i (s\<lparr>activeWorkers := activeWorkers s + 1\<rparr>)"
      using after.hyps(2) by (auto split: if_splits wstatus.splits)
    moreover have "mentioned (s\<lparr>activeWorkers := activeWorkers s + 1\<rparr>) = mentioned s"
      by (simp add: mentioned_def)
    ultimately show ?thesis
      using after.IH mentioned_runWorker [of opts i "s\<lparr>activeWorkers := activeWorkers s + 1\<rparr>"]
      by auto
  qed
qed

lemma enqueueEntries_skip:
  assumes "\<not> isDirectory entry" "\<not> isFile entry"
  shows "enqueueEntries io d (before @ entry # after) s = enqueueEntries io d (before @ after) s"
  using assms by (simp add: enqueueEntries_eq)

section \<open>The walk reaches what it should\<close>

lemma explorableTree_mono:
  "explorableTree opts io k d \<Longrightarrow> k \<le> k' \<Longrightarrow> explorableTree opts io k' d"
proof (induction k arbitrary: d k')
  case 0
  then show ?case by simp
next
  case (Suc k)
  then obtain j where j: "k' = Suc j" "k \<le> j" by (cases k') auto
  from Suc.prems(1) obtain entries where e: "readdir io d = Inr entries"
    by (auto split: sum.splits)
  show ?case
    using Suc.prems(1) Suc.IH [OF _ j(2)]
    by (auto simp: j(1) e list_all_iff)
qed

lemma explored_explorable:
  assumes "explorableTree opts io K (rootDir opts)" "explored opts io d"
  shows "explorableTree opts io K d"
  using assms(2)
proof (induction rule: explored.induct)
  case root
  show ?case by (rule assms(1))
next
  case (sub d entries entry)
  obtain k where k: "K = Suc k" using sub.IH by (cases K) auto
  have "explorableTree opts io k (join io d (name entry))"
    using sub.IH sub.hyps(2,3,4,5) by (auto simp: k list_all_iff)
  then show ?case by (rule explorableTree_mono) (simp add: k)
qed

lemma explorable_listing:
  "explorableTree opts io k d \<Longrightarrow> \<exists>entries. readdir io d = Inr entries"
  by (cases k) (auto split: sum.splits)

lemma explorable_readable:
  assumes "explorableTree opts io k d" "fileIn io d p" "shouldReadFile opts \<lparr>path = p\<rparr> = Inr True"
  shows "\<exists>buffer. readFile io p = Inr buffer"
proof -
  obtain j where j: "k = Suc j" using assms(1) by (cases k) auto
  obtain entries entry where e: "readdir io d = Inr entries" "entry \<in> set entries"
    "isFile entry" "p = join io d (name entry)"
    using assms(2) by (auto simp: fileIn_def)
  have "isReadable (readFile io p)"
    using assms(1,3) e by (auto simp: j list_all_iff)
  then show ?thesis by (cases "readFile io p") (simp_all add: isReadable_def)
qed

lemma expected_explored:
  assumes "expected opts io d p" "explored opts io d"
  shows "p \<in> specPaths opts io"
  using assms
proof (induction rule: expected.induct)
  case (here d p)
  then show ?case by (auto simp: specPaths_def)
next
  case (below d c p)
  have "explored opts io c"
    using below.hyps(1,2) below.prems by (auto simp: dirIn_def intro: explored.sub)
  then show ?case by (rule below.IH)
qed

lemma explored_expected:
  assumes "explored opts io d" "expected opts io d p"
  shows "expected opts io (rootDir opts) p"
  using assms
proof (induction arbitrary: p rule: explored.induct)
  case root
  then show ?case .
next
  case (sub d entries entry)
  have "dirIn io d (join io d (name entry))"
    using sub.hyps by (auto simp: dirIn_def)
  then have "expected opts io d p"
    using sub.hyps(5) sub.prems by (rule expected.below)
  then show ?case by (rule sub.IH)
qed

lemma specPaths_expected: "specPaths opts io = {p. expected opts io (rootDir opts) p}"
proof -
  have "expected opts io (rootDir opts) p" if "p \<in> specPaths opts io" for p
  proof -
    from that obtain d where "explored opts io d" "fileIn io d p" "yieldable opts io p"
      by (auto simp: specPaths_def)
    then show ?thesis using explored_expected expected.here by blast
  qed
  moreover have "p \<in> specPaths opts io" if "expected opts io (rootDir opts) p" for p
    using that explored.root by (rule expected_explored)
  ultimately show ?thesis by blast
qed


lemma statusTasks_wake [simp]: "statusTasks (wake w) = statusTasks w"
  by (cases w) simp_all

lemma pendingTasks_wake [simp]: "pendingTasks (map wake ws) = pendingTasks ws"
  by (simp add: pendingTasks_def)

lemma set_update_cases:
  assumes "x \<in> set ws"
  shows "x = ws ! i \<or> x \<in> set (ws[i := w])"
proof -
  obtain j where j: "j < length ws" "ws ! j = x"
    using assms by (auto simp: in_set_conv_nth)
  show ?thesis
  proof (cases "j = i")
    case True
    then show ?thesis using j by simp
  next
    case False
    then have "(ws[i := w]) ! j = x" using j by simp
    moreover have "j < length (ws[i := w])" using j by simp
    ultimately show ?thesis using nth_mem by blast
  qed
qed

lemma pendingTasks_update:
  assumes "i < length ws" "statusTasks (ws ! i) = {}"
  shows "pendingTasks (ws[i := w]) = pendingTasks ws \<union> statusTasks w"
proof
  show "pendingTasks (ws[i := w]) \<subseteq> pendingTasks ws \<union> statusTasks w"
    using set_update_subset_insert [of ws i w] by (auto simp: pendingTasks_def)
  have "w \<in> set (ws[i := w])" using assms(1) by (rule set_update_memI)
  moreover have "x = ws ! i \<or> x \<in> set (ws[i := w])" if "x \<in> set ws" for x
    using that by (rule set_update_cases)
  ultimately show "pendingTasks ws \<union> statusTasks w \<subseteq> pendingTasks (ws[i := w])"
    using assms(2) by (fastforce simp: pendingTasks_def)
qed

lemma pendingTasks_settled:
  assumes "i < length ws" "statusTasks w = {}"
  shows "pendingTasks (ws[i := w]) \<subseteq> pendingTasks ws"
    and "pendingTasks ws \<subseteq> statusTasks (ws ! i) \<union> pendingTasks (ws[i := w])"
proof -
  show "pendingTasks (ws[i := w]) \<subseteq> pendingTasks ws"
    using set_update_subset_insert [of ws i w] assms(2) by (auto simp: pendingTasks_def)
  have "x = ws ! i \<or> x \<in> set (ws[i := w])" if "x \<in> set ws" for x
    using that by (rule set_update_cases)
  then show "pendingTasks ws \<subseteq> statusTasks (ws ! i) \<union> pendingTasks (ws[i := w])"
    by (fastforce simp: pendingTasks_def)
qed

lemma tasks_frame [simp]:
  "tasks (notifyWorkers s) = tasks s"
  "tasks (notifyGenerator s) = tasks s"
  "tasks (called e s) = tasks s"
  by (simp_all add: tasks_def notifyGenerator_def)

text \<open>
  A step that removes the task \<open>old\<close> and adds the tasks \<open>new\<close> keeps the invariant
  when the new tasks are in order and cover what the old one covered.
\<close>

lemma walkInv_step:
  assumes "walkInv opts io s" "error s' = Null"
    and "tasks s' \<subseteq> tasks s \<union> new" "new \<subseteq> tasks s'" "tasks s \<subseteq> insert old (tasks s')"
    and "old \<in> tasks s"
    and "okTask opts io old \<Longrightarrow> \<forall>t \<in> new. okTask opts io t"
    and "\<And>p. okTask opts io old \<Longrightarrow> p \<in> specPaths opts io \<Longrightarrow> covers opts io old p \<Longrightarrow>
           \<exists>t \<in> new. covers opts io t p"
  shows "walkInv opts io s'"
proof -
  have ok: "okTask opts io old" using assms(1,6) by (simp add: walkInv_def)
  have "okTask opts io t" if "t \<in> tasks s'" for t
    using that assms(1,3,7) ok by (auto simp: walkInv_def)
  moreover have "\<exists>t \<in> tasks s'. covers opts io t p" if p: "p \<in> specPaths opts io" for p
  proof -
    obtain t where t: "t \<in> tasks s" "covers opts io t p"
      using assms(1) p by (auto simp: walkInv_def)
    show ?thesis
    proof (cases "t \<in> tasks s'")
      case True
      then show ?thesis using t(2) by blast
    next
      case False
      then have "t = old" using t(1) assms(5) by blast
      then show ?thesis using assms(8) [OF ok p] t(2) assms(4) by blast
    qed
  qed
  ultimately show ?thesis using assms(2) by (simp add: walkInv_def)
qed

lemma walkInv_same:
  assumes "walkInv opts io s" "error s' = Null" "tasks s' = tasks s"
  shows "walkInv opts io s'"
  using assms by (simp add: walkInv_def)


lemma runWorker_suspend:
  "runWorker opts i s = suspend i (workerLoop opts (s\<lparr>workers := (workers s)[i := Running]\<rparr>))"
  by (simp add: runWorker_def suspend_def Let_def)

lemma fileCtx_eq: "\<lparr>path = path (f :: FileWithoutContents)\<rparr> = f"
  by (cases f) simp

lemma record_eq:
  "\<lparr>path = path (r :: FileWithContents), contents = createFileReader (asText (contents r))\<rparr> = r"
  "\<lparr>path = path (r :: FileWithContents), contents = contents r\<rparr> = r"
  by (cases r; simp)+

lemma tasks_suspend:
  assumes "i < length (workers s)" "workers s ! i = Running"
  shows "tasks (suspend i (s, oc)) = tasks s \<union> statusTasks (statusAfter oc)"
  using pendingTasks_update [of i "workers s" "statusAfter oc"] assms
  by (auto simp: suspend_def tasks_def)

lemma suspend_Continue:
  assumes "i < length (workers s)" "workers s ! i = Running"
  shows "suspend i (s, Continue) = s"
  using assms by (simp add: suspend_def list_update_same_conv)

lemma error_suspend [simp]: "error (suspend i r) = error (fst r)"
  by (simp add: suspend_def)

lemma nonThrowingD:
  assumes "nonThrowing opts"
  shows "\<exists>b. shouldExploreDir opts p = Inr b"
    and "\<exists>b. shouldReadFile opts f = Inr b"
    and "\<exists>b. yieldPredicate opts r = Inr b"
  using assms unfolding nonThrowing_def by blast+

lemma walkInv_yieldCheck:
  assumes "walkInv opts io s" "nonThrowing opts" "queueYieldCheck s = f # rest"
  shows "walkInv opts io
           (stageYieldCheck opts f
              (called (CallShouldYieldFile (path f)) (s\<lparr>queueYieldCheck := rest\<rparr>)))"
    (is "walkInv opts io ?s'")
proof -
  obtain b where b: "yieldPredicate opts f = Inr b"
    using nonThrowingD [OF assms(2)] by blast
  have e: "error s = Null" using assms(1) by (simp add: walkInv_def)
  have old: "ToCheckYield f \<in> tasks s" using assms(3) by (simp add: tasks_def)
  show ?thesis
  proof (cases b)
    case True
    show ?thesis
    proof (rule walkInv_step [OF assms(1) _ _ _ _ old, where new = "{ToDeliver f}"])
      show "error ?s' = Null" using e b True by (simp add: stageYieldCheck_def)
      show "tasks ?s' \<subseteq> tasks s \<union> {ToDeliver f}"
        using b True assms(3) by (auto simp: stageYieldCheck_def tasks_def)
      show "{ToDeliver f} \<subseteq> tasks ?s'"
        using b True by (simp add: stageYieldCheck_def tasks_def)
      show "tasks s \<subseteq> insert (ToCheckYield f) (tasks ?s')"
        using b True assms(3) by (auto simp: stageYieldCheck_def tasks_def)
      assume ok: "okTask opts io (ToCheckYield f)"
      then have "yieldable opts io (path f)"
        using b True by (auto simp: yieldable_def record_eq)
      then show "\<forall>t \<in> {ToDeliver f}. okTask opts io t"
        using ok by (auto simp: specPaths_def)
    next
      fix p assume "covers opts io (ToCheckYield f) p"
      then show "\<exists>t \<in> {ToDeliver f}. covers opts io t p" by simp
    qed
  next
    case False
    show ?thesis
    proof (rule walkInv_step [OF assms(1) _ _ _ _ old, where new = "{}"])
      show "error ?s' = Null" using e b False by (simp add: stageYieldCheck_def)
      show "tasks ?s' \<subseteq> tasks s \<union> {}"
        using b False assms(3) by (auto simp: stageYieldCheck_def tasks_def)
      show "{} \<subseteq> tasks ?s'" by simp
      show "tasks s \<subseteq> insert (ToCheckYield f) (tasks ?s')"
        using b False assms(3) by (auto simp: stageYieldCheck_def tasks_def)
      show "\<forall>t \<in> {}. okTask opts io t" by simp
    next
      fix p assume ok: "okTask opts io (ToCheckYield f)" and p: "p \<in> specPaths opts io"
        and c: "covers opts io (ToCheckYield f) p"
      have "yieldable opts io (path f)" using p c by (auto simp: specPaths_def)
      then have "yieldPredicate opts f = Inr True"
        using ok by (auto simp: yieldable_def record_eq)
      then show "\<exists>t \<in> {}. covers opts io t p" using b False by simp
    qed
  qed
qed

lemma walkInv_fileCheck:
  assumes "walkInv opts io s" "nonThrowing opts" "queueFileCheck s = f # rest"
  shows "walkInv opts io
           (stageFileCheck opts f
              (called (CallShouldReadFile (path f)) (s\<lparr>queueFileCheck := rest\<rparr>)))"
    (is "walkInv opts io ?s'")
proof -
  obtain b where b: "shouldReadFile opts f = Inr b"
    using nonThrowingD [OF assms(2)] by blast
  have e: "error s = Null" using assms(1) by (simp add: walkInv_def)
  have old: "ToCheckFile (path f) \<in> tasks s" using assms(3) by (simp add: tasks_def)
  show ?thesis
  proof (cases b)
    case True
    show ?thesis
    proof (rule walkInv_step [OF assms(1) _ _ _ _ old, where new = "{ToRead (path f)}"])
      show "error ?s' = Null" using e b True by (simp add: stageFileCheck_def)
      show "tasks ?s' \<subseteq> tasks s \<union> {ToRead (path f)}"
        using b True assms(3) by (auto simp: stageFileCheck_def tasks_def)
      show "{ToRead (path f)} \<subseteq> tasks ?s'"
        using b True by (simp add: stageFileCheck_def tasks_def)
      show "tasks s \<subseteq> insert (ToCheckFile (path f)) (tasks ?s')"
        using b True assms(3) by (auto simp: stageFileCheck_def tasks_def)
      assume "okTask opts io (ToCheckFile (path f))"
      then show "\<forall>t \<in> {ToRead (path f)}. okTask opts io t"
        using b True by (simp add: fileCtx_eq)
    next
      fix p assume "covers opts io (ToCheckFile (path f)) p"
      then show "\<exists>t \<in> {ToRead (path f)}. covers opts io t p" by simp
    qed
  next
    case False
    show ?thesis
    proof (rule walkInv_step [OF assms(1) _ _ _ _ old, where new = "{}"])
      show "error ?s' = Null" using e b False by (simp add: stageFileCheck_def)
      show "tasks ?s' \<subseteq> tasks s \<union> {}"
        using b False assms(3) by (auto simp: stageFileCheck_def tasks_def)
      show "{} \<subseteq> tasks ?s'" by simp
      show "tasks s \<subseteq> insert (ToCheckFile (path f)) (tasks ?s')"
        using b False assms(3) by (auto simp: stageFileCheck_def tasks_def)
      show "\<forall>t \<in> {}. okTask opts io t" by simp
    next
      fix p assume p: "p \<in> specPaths opts io" and c: "covers opts io (ToCheckFile (path f)) p"
      have "yieldable opts io (path f)" using p c by (auto simp: specPaths_def)
      then have "shouldReadFile opts f = Inr True" by (simp add: yieldable_def fileCtx_eq)
      then show "\<exists>t \<in> {}. covers opts io t p" using b False by simp
    qed
  qed
qed

lemma walkInv_dirCheck:
  assumes "walkInv opts io s" "nonThrowing opts" "queueDirCheck s = d # rest"
  shows "walkInv opts io
           (fst (stageDirCheck opts d
              (called (CallShouldExploreDir d) (s\<lparr>queueDirCheck := rest\<rparr>))))"
    (is "walkInv opts io ?s'")
    and "snd (stageDirCheck opts d
              (called (CallShouldExploreDir d) (s\<lparr>queueDirCheck := rest\<rparr>))) = Continue"
proof -
  obtain b where b: "shouldExploreDir opts d = Inr b"
    using nonThrowingD [OF assms(2)] by blast
  then show "snd (stageDirCheck opts d
              (called (CallShouldExploreDir d) (s\<lparr>queueDirCheck := rest\<rparr>))) = Continue"
    by (cases b) (simp_all add: stageDirCheck_def)
  have e: "error s = Null" using assms(1) by (simp add: walkInv_def)
  have old: "ToCheckDir d \<in> tasks s" using assms(3) by (simp add: tasks_def)
  show "walkInv opts io ?s'"
  proof (cases b)
    case True
    show ?thesis
    proof (rule walkInv_step [OF assms(1) _ _ _ _ old, where new = "{ToList d}"])
      show "error ?s' = Null" using e b True by (simp add: stageDirCheck_def)
      show "tasks ?s' \<subseteq> tasks s \<union> {ToList d}"
        using b True assms(3) by (auto simp: stageDirCheck_def tasks_def)
      show "{ToList d} \<subseteq> tasks ?s'"
        using b True by (simp add: stageDirCheck_def tasks_def)
      show "tasks s \<subseteq> insert (ToCheckDir d) (tasks ?s')"
        using b True assms(3) by (auto simp: stageDirCheck_def tasks_def)
      assume "okTask opts io (ToCheckDir d)"
      then show "\<forall>t \<in> {ToList d}. okTask opts io t"
        using b True by (auto simp: dirIn_def intro: explored.sub)
    next
      fix p assume "covers opts io (ToCheckDir d) p"
      then show "\<exists>t \<in> {ToList d}. covers opts io t p" by simp
    qed
  next
    case False
    show ?thesis
    proof (rule walkInv_step [OF assms(1) _ _ _ _ old, where new = "{}"])
      show "error ?s' = Null" using e b False by (simp add: stageDirCheck_def)
      show "tasks ?s' \<subseteq> tasks s \<union> {}"
        using b False assms(3) by (auto simp: stageDirCheck_def tasks_def)
      show "{} \<subseteq> tasks ?s'" by simp
      show "tasks s \<subseteq> insert (ToCheckDir d) (tasks ?s')"
        using b False assms(3) by (auto simp: stageDirCheck_def tasks_def)
      show "\<forall>t \<in> {}. okTask opts io t" by simp
    next
      fix p assume "covers opts io (ToCheckDir d) p"
      then show "\<exists>t \<in> {}. covers opts io t p" using b False by simp
    qed
  qed
qed


lemma woke_Running:
  assumes "woke ws ws'" "i < length ws" "ws ! i = Running"
  shows "i < length ws' \<and> ws' ! i = Running"
  using assms by (auto simp: woke_def)

lemma workerIteration_Running:
  assumes "i < length (workers s)" "workers s ! i = Running"
  shows "i < length (workers (fst (workerIteration opts s))) \<and>
         workers (fst (workerIteration opts s)) ! i = Running"
  using workerIteration_workers assms by (rule woke_Running)

lemma walkInv_noWork:
  assumes "walkInv opts io s" "i < length (workers s)" "workers s ! i = Running"
  shows "walkInv opts io (suspend i (noWorkAvailable s))"
proof (rule walkInv_same [OF assms(1)])
  show "error (suspend i (noWorkAvailable s)) = Null"
    using assms(1) by (simp add: walkInv_def noWorkAvailable_def Let_def)
  have "pendingTasks ((map wake (workers s))[i := w]) = pendingTasks (workers s)"
    if "statusTasks w = {}" for w
    using pendingTasks_update [of i "map wake (workers s)" w] assms(2,3) that by simp
  moreover have "pendingTasks ((workers s)[i := w]) = pendingTasks (workers s)"
    if "statusTasks w = {}" for w
    using pendingTasks_update [of i "workers s" w] assms(2,3) that by simp
  ultimately show "tasks (suspend i (noWorkAvailable s)) = tasks s"
    by (simp add: suspend_def noWorkAvailable_def Let_def tasks_def notifyGenerator_def)
qed

lemma walkInv_iteration:
  assumes "walkInv opts io s" "nonThrowing opts" "i < length (workers s)"
    "workers s ! i = Running"
  shows "walkInv opts io (suspend i (workerIteration opts s))"
proof (cases rule: workerIteration_cases [of s opts])
  case error
  then show ?thesis using assms(1) by (simp add: walkInv_def)
next
  case (yieldCheck f rest)
  let ?s' = "stageYieldCheck opts f
    (called (CallShouldYieldFile (path f)) (s\<lparr>queueYieldCheck := rest\<rparr>))"
  have "i < length (workers ?s') \<and> workers ?s' ! i = Running"
    using workerIteration_Running [OF assms(3,4), of opts] by (simp add: yieldCheck(3))
  then have "suspend i (?s', Continue) = ?s'" by (simp add: suspend_Continue)
  then show ?thesis
    using walkInv_yieldCheck [OF assms(1,2) yieldCheck(2)] by (simp add: yieldCheck(3))
next
  case (read fileCtx rest)
  let ?s' = "called (CallReadFile (path fileCtx)) (s\<lparr>queueRead := rest\<rparr>)"
  have "tasks (suspend i (?s', AwaitReadFile fileCtx)) = tasks ?s' \<union> {ToRead (path fileCtx)}"
    using tasks_suspend [of i ?s' "AwaitReadFile fileCtx"] assms(3,4) by simp
  also have "\<dots> = tasks s" using read(3) by (auto simp: tasks_def)
  finally show ?thesis
    using walkInv_same [OF assms(1), of "suspend i (?s', AwaitReadFile fileCtx)"] assms(1)
    by (simp add: read(4) walkInv_def)
next
  case (fileCheck fileCtx rest)
  let ?s' = "stageFileCheck opts fileCtx
    (called (CallShouldReadFile (path fileCtx)) (s\<lparr>queueFileCheck := rest\<rparr>))"
  have "i < length (workers ?s') \<and> workers ?s' ! i = Running"
    using workerIteration_Running [OF assms(3,4), of opts] by (simp add: fileCheck(5))
  then have "suspend i (?s', Continue) = ?s'" by (simp add: suspend_Continue)
  then show ?thesis
    using walkInv_fileCheck [OF assms(1,2) fileCheck(4)] by (simp add: fileCheck(5))
next
  case (dirStat dirPath rest)
  let ?s' = "called (CallReaddir dirPath) (s\<lparr>queueDirStat := rest\<rparr>)"
  have "tasks (suspend i (?s', AwaitReaddir dirPath)) = tasks ?s' \<union> {ToList dirPath}"
    using tasks_suspend [of i ?s' "AwaitReaddir dirPath"] assms(3,4) by simp
  also have "\<dots> = tasks s" using dirStat(5) by (auto simp: tasks_def)
  finally show ?thesis
    using walkInv_same [OF assms(1), of "suspend i (?s', AwaitReaddir dirPath)"] assms(1)
    by (simp add: dirStat(6) walkInv_def)
next
  case (dirCheck dirPath rest)
  let ?r = "stageDirCheck opts dirPath
    (called (CallShouldExploreDir dirPath) (s\<lparr>queueDirCheck := rest\<rparr>))"
  have c: "snd ?r = Continue" using assms(1,2) dirCheck(6) by (rule walkInv_dirCheck(2))
  have "i < length (workers (fst ?r)) \<and> workers (fst ?r) ! i = Running"
    using workerIteration_Running [OF assms(3,4), of opts] by (simp add: dirCheck(7))
  then have "suspend i (fst ?r, Continue) = fst ?r" by (simp add: suspend_Continue)
  moreover have "?r = (fst ?r, Continue)" using c by (simp add: prod_eq_iff)
  ultimately have "suspend i ?r = fst ?r" by simp
  then show ?thesis
    using walkInv_dirCheck(1) [OF assms(1,2) dirCheck(6)] by (simp add: dirCheck(7))
next
  case noWork
  then show ?thesis using walkInv_noWork [OF assms(1,3,4)] by simp
qed

lemma walkInv_workerLoop:
  assumes "walkInv opts io s" "nonThrowing opts" "i < length (workers s)"
    "workers s ! i = Running"
  shows "walkInv opts io (suspend i (workerLoop opts s))"
proof (rule workerLoop_rule
    [where P = "\<lambda>t. walkInv opts io t \<and> i < length (workers t) \<and> workers t ! i = Running"])
  show "walkInv opts io s \<and> i < length (workers s) \<and> workers s ! i = Running"
    using assms by simp
next
  fix t
  assume P: "walkInv opts io t \<and> i < length (workers t) \<and> workers t ! i = Running"
    and c: "snd (workerIteration opts t) = Continue"
  let ?r = "workerIteration opts t"
  have run: "i < length (workers (fst ?r)) \<and> workers (fst ?r) ! i = Running"
    using workerIteration_Running P by blast
  then have "suspend i (fst ?r, Continue) = fst ?r" by (simp add: suspend_Continue)
  moreover have "?r = (fst ?r, Continue)" using c by (simp add: prod_eq_iff)
  ultimately have "suspend i ?r = fst ?r" by simp
  then show "walkInv opts io (fst ?r) \<and> i < length (workers (fst ?r)) \<and>
      workers (fst ?r) ! i = Running"
    using walkInv_iteration [of opts io t i] P assms(2) run by simp
next
  fix t
  assume "walkInv opts io t \<and> i < length (workers t) \<and> workers t ! i = Running"
  then show "walkInv opts io (suspend i (workerIteration opts t))"
    using walkInv_iteration assms(2) by blast
qed


lemma pendingTasks_nth:
  assumes "i < length ws"
  shows "statusTasks (ws ! i) \<subseteq> pendingTasks ws"
proof -
  have "ws ! i \<in> set ws" using assms by simp
  then show ?thesis unfolding pendingTasks_def by blast
qed

lemma walkInv_runWorker:
  assumes "walkInv opts io (s\<lparr>workers := (workers s)[i := Running]\<rparr>)"
    "nonThrowing opts" "i < length (workers s)"
  shows "walkInv opts io (runWorker opts i s)"
  unfolding runWorker_suspend
  by (rule walkInv_workerLoop [OF assms(1,2)]) (simp_all add: assms(3))

lemma walkInv_settleReadFile:
  assumes "walkInv opts io s" "explorableTree opts io K (rootDir opts)"
    "i < length (workers s)" "workers s ! i = AwaitingReadFile f"
  shows "walkInv opts io
           ((settleReadFile io f s)\<lparr>workers := (workers (settleReadFile io f s))[i := Running]\<rparr>)"
    (is "walkInv opts io ?s'")
proof -
  have old: "ToRead (path f) \<in> tasks s"
    using pendingTasks_nth [OF assms(3)] assms(4) by (simp add: tasks_def)
  then have ok: "okTask opts io (ToRead (path f))" using assms(1) unfolding walkInv_def by blast
  then obtain d where d: "explored opts io d" "fileIn io d (path f)" by auto
  have "explorableTree opts io K d" using assms(2) d(1) by (rule explored_explorable)
  then obtain buffer where buffer: "readFile io (path f) = Inr buffer"
    using explorable_readable d(2) ok by fastforce
  let ?r = "\<lparr>path = path f, contents = createFileReader buffer\<rparr>"
  have e: "error s = Null" using assms(1) by (simp add: walkInv_def)
  have p1: "pendingTasks ((map wake (workers s))[i := Running]) \<subseteq> pendingTasks (workers s)"
    using pendingTasks_settled(1) [of i "map wake (workers s)" Running] assms(3) by simp
  have p2: "pendingTasks (workers s) \<subseteq>
      insert (ToRead (path f)) (pendingTasks ((map wake (workers s))[i := Running]))"
    using pendingTasks_settled(2) [of i "map wake (workers s)" Running] assms(3,4) by simp
  show ?thesis
  proof (rule walkInv_step [OF assms(1) _ _ _ _ old, where new = "{ToCheckYield ?r}"])
    show "error ?s' = Null" using e buffer by (simp add: settleReadFile_def)
    show "tasks ?s' \<subseteq> tasks s \<union> {ToCheckYield ?r}"
      using buffer p1 by (auto simp: settleReadFile_def tasks_def)
    show "{ToCheckYield ?r} \<subseteq> tasks ?s'"
      using buffer by (simp add: settleReadFile_def tasks_def)
    show "tasks s \<subseteq> insert (ToRead (path f)) (tasks ?s')"
      using buffer p2 by (auto simp: settleReadFile_def tasks_def)
    show "\<forall>t \<in> {ToCheckYield ?r}. okTask opts io t"
      using ok buffer by simp
  next
    fix p assume "covers opts io (ToRead (path f)) p"
    then show "\<exists>t \<in> {ToCheckYield ?r}. covers opts io t p" by simp
  qed
qed

lemma walkInv_settleReaddir:
  assumes "walkInv opts io s" "explorableTree opts io K (rootDir opts)"
    "i < length (workers s)" "workers s ! i = AwaitingReaddir d"
  shows "walkInv opts io
           ((settleReaddir io d s)\<lparr>workers := (workers (settleReaddir io d s))[i := Running]\<rparr>)"
    (is "walkInv opts io ?s'")
proof -
  have old: "ToList d \<in> tasks s"
    using pendingTasks_nth [OF assms(3)] assms(4) by (simp add: tasks_def)
  then have "okTask opts io (ToList d)" using assms(1) unfolding walkInv_def by blast
  then have ok: "explored opts io d" by simp
  then have "explorableTree opts io K d" using assms(2) explored_explorable by blast
  then obtain entries where entries: "readdir io d = Inr entries"
    using explorable_listing by blast
  let ?dirs = "map (\<lambda>e. join io d (name e)) (filter isDirectory entries)"
  let ?files = "map (\<lambda>e. \<lparr>path = join io d (name e)\<rparr>) (filter isFile entries)"
  let ?new = "ToCheckDir ` set ?dirs \<union> (\<lambda>f. ToCheckFile (path f)) ` set ?files"
  have e: "error s = Null" using assms(1) by (simp add: walkInv_def)
  have p1: "pendingTasks ((map wake (workers s))[i := Running]) \<subseteq> pendingTasks (workers s)"
    "pendingTasks ((workers s)[i := Running]) \<subseteq> pendingTasks (workers s)"
    using pendingTasks_settled(1) [of i "map wake (workers s)" Running]
      pendingTasks_settled(1) [of i "workers s" Running] assms(3) by simp_all
  have p2: "pendingTasks (workers s) \<subseteq>
      insert (ToList d) (pendingTasks ((map wake (workers s))[i := Running]))"
    "pendingTasks (workers s) \<subseteq> insert (ToList d) (pendingTasks ((workers s)[i := Running]))"
    using pendingTasks_settled(2) [of i "map wake (workers s)" Running]
      pendingTasks_settled(2) [of i "workers s" Running] assms(3,4) by simp_all
  show ?thesis
  proof (rule walkInv_step [OF assms(1) _ _ _ _ old, where new = ?new])
    show "error ?s' = Null" using e entries by (simp add: settleReaddir_error)
    show "tasks ?s' \<subseteq> tasks s \<union> ?new"
      using entries p1
      by (auto simp: settleReaddir_def enqueueEntries_eq Let_def tasks_def)
    show "?new \<subseteq> tasks ?s'"
      using entries
      by (auto simp: settleReaddir_def enqueueEntries_eq Let_def tasks_def)
    show "tasks s \<subseteq> insert (ToList d) (tasks ?s')"
      using entries p2
      by (auto simp: settleReaddir_def enqueueEntries_eq Let_def tasks_def)
    have "dirIn io d (join io d (name entry))" if "entry \<in> set entries" "isDirectory entry"
      for entry using that entries by (auto simp: dirIn_def)
    moreover have "fileIn io d (join io d (name entry))" if "entry \<in> set entries" "isFile entry"
      for entry using that entries by (auto simp: fileIn_def)
    ultimately show "\<forall>t \<in> ?new. okTask opts io t"
      using ok by fastforce
  next
    fix p assume "covers opts io (ToList d) p"
    then have "expected opts io d p" by simp
    then show "\<exists>t \<in> ?new. covers opts io t p"
    proof (cases rule: expected.cases)
      case here
      then have "ToCheckFile p \<in> ?new" using entries by (auto simp: fileIn_def image_iff)
      then show ?thesis by (metis covers.simps(3))
    next
      case (below c)
      then have "ToCheckDir c \<in> ?new" using entries by (auto simp: dirIn_def image_iff)
      then show ?thesis using below by (metis covers.simps(2))
    qed
  qed
qed

lemma walkInv_resume:
  assumes "walkInv opts io s" "i < length (workers s)" "workers s ! i = Woken"
  shows "walkInv opts io
           (s\<lparr>activeWorkers := activeWorkers s + 1, workers := (workers s)[i := Running]\<rparr>)"
proof (rule walkInv_same [OF assms(1)])
  have "pendingTasks ((workers s)[i := Running]) = pendingTasks (workers s)"
    using pendingTasks_update [of i "workers s" Running] assms(2,3) by simp
  then show "tasks (s\<lparr>activeWorkers := activeWorkers s + 1,
      workers := (workers s)[i := Running]\<rparr>) = tasks s"
    by (simp add: tasks_def)
qed (use assms(1) in \<open>simp add: walkInv_def\<close>)

lemma walkInv_generatorLoop:
  assumes "walkInv opts io s"
  shows "walkInv opts io (generatorLoop s)"
proof (rule walkInv_same [OF assms])
  show "error (generatorLoop s) = Null"
    using assms by (simp add: walkInv_def generatorLoop_def split: list.splits)
  show "tasks (generatorLoop s) = tasks s"
    by (auto simp: generatorLoop_def tasks_def split: list.splits option.splits)
qed

lemma walkInv_afterStart:
  "walkInv opts io ((afterStart opts n n)\<lparr>generator := GenParked\<rparr>)"
proof -
  have "pendingTasks (AwaitingReaddir (rootDir opts) # replicate (n - Suc 0) Parked)
          = {ToList (rootDir opts)}"
    by (auto simp: pendingTasks_def)
  then have "tasks ((afterStart opts n n)\<lparr>generator := GenParked\<rparr>) = {ToList (rootDir opts)}"
    by (simp add: tasks_def afterStart_def initialState_def)
  then show ?thesis
    by (simp add: walkInv_def explored.root specPaths_expected)
       (simp add: afterStart_def initialState_def)
qed

lemma reachable_walkInv:
  assumes "reachable opts io s" "generator s \<noteq> GenNotStarted" "validate opts = Inr n"
    and "nonThrowing opts" "explorableTree opts io K (rootDir opts)"
  shows "walkInv opts io s"
  using assms(1,2,3)
proof (induction rule: started_induct)
  case start
  show ?case by (rule walkInv_afterStart)
next
  case (generator s)
  then show ?case by (simp add: walkInv_generatorLoop)
next
  case (readdir s i d)
  have "length (workers (settleReaddir io d s)) = length (workers s)" by simp
  then show ?case
    using walkInv_settleReaddir [OF readdir(4) assms(5) readdir(2,3)] assms(4) readdir(2)
    by (simp add: walkInv_runWorker)
next
  case (readFile s i f)
  have "length (workers (settleReadFile io f s)) = length (workers s)" by simp
  then show ?case
    using walkInv_settleReadFile [OF readFile(4) assms(5) readFile(2,3)] assms(4) readFile(2)
    by (simp add: walkInv_runWorker)
next
  case (resume s i)
  then show ?case
    using walkInv_resume [OF resume(4,2,3)] assms(4) resume(2)
    by (simp add: walkInv_runWorker)
qed

section \<open>The position of the generator\<close>

lemma genInv_notified:
  assumes "genInv s" "generator s \<noteq> GenReturned"
    and "generator s' = generator (notifyGenerator s)"
  shows "genInv s'"
  using assms by (auto simp: genInv_def notifyGenerator_def split: if_splits)

lemma genInv_unchanged:
  assumes "genInv s" "generator s' = generator s" "outputBuffer s' = outputBuffer s"
    "isDone s' = isDone s" "error s' = error s"
  shows "genInv s'"
  using assms by (simp add: genInv_def)

lemma genInv_iteration:
  assumes "genInv s" "inSegment i s"
  shows "genInv (fst (workerIteration opts s))"
proof (cases rule: workerIteration_cases [of s opts])
  case error
  then show ?thesis using assms(1) by simp
next
  case (yieldCheck f rest)
  have "\<not> allQueuesEmpty s" using yieldCheck(2) by (simp add: allQueuesEmpty_def)
  then have nd: "\<not> isDone s" using assms(2) inSegment_not_done by blast
  then have nr: "generator s \<noteq> GenReturned" using assms(1) by (auto simp: genInv_def)
  show ?thesis
  proof (cases "yieldPredicate opts f")
    case (Inl e)
    then show ?thesis
      using genInv_notified [OF assms(1) nr] by (simp add: yieldCheck(3) stageYieldCheck_def
          notifyGenerator_def)
  next
    case (Inr b)
    show ?thesis
    proof (cases b)
      case True
      then show ?thesis
        using genInv_notified [OF assms(1) nr] Inr by (simp add: yieldCheck(3) stageYieldCheck_def
            notifyGenerator_def)
    next
      case False
      then show ?thesis
        using genInv_unchanged [OF assms(1)] Inr by (simp add: yieldCheck(3) stageYieldCheck_def)
    qed
  qed
next
  case (read fileCtx rest)
  then show ?thesis using genInv_unchanged [OF assms(1)] by simp
next
  case (fileCheck fileCtx rest)
  have "\<not> allQueuesEmpty s" using fileCheck(4) by (simp add: allQueuesEmpty_def)
  then have nd: "\<not> isDone s" using assms(2) inSegment_not_done by blast
  then have nr: "generator s \<noteq> GenReturned" using assms(1) by (auto simp: genInv_def)
  show ?thesis
  proof (cases "shouldReadFile opts fileCtx")
    case (Inl e)
    then show ?thesis
      using genInv_notified [OF assms(1) nr] by (simp add: fileCheck(5) stageFileCheck_def
          notifyGenerator_def)
  next
    case (Inr b)
    then show ?thesis
      using genInv_unchanged [OF assms(1)]
      by (cases b) (simp_all add: fileCheck(5) stageFileCheck_def)
  qed
next
  case (dirStat dirPath rest)
  then show ?thesis using genInv_unchanged [OF assms(1)] by simp
next
  case (dirCheck dirPath rest)
  have "\<not> allQueuesEmpty s" using dirCheck(6) by (simp add: allQueuesEmpty_def)
  then have nd: "\<not> isDone s" using assms(2) inSegment_not_done by blast
  then have nr: "generator s \<noteq> GenReturned" using assms(1) by (auto simp: genInv_def)
  show ?thesis
  proof (cases "shouldExploreDir opts dirPath")
    case (Inl e)
    then show ?thesis
      using genInv_notified [OF assms(1) nr] by (simp add: dirCheck(7) stageDirCheck_def
          notifyGenerator_def)
  next
    case (Inr b)
    then show ?thesis
      using genInv_unchanged [OF assms(1)]
      by (cases b) (simp_all add: dirCheck(7) stageDirCheck_def)
  qed
next
  case noWork
  show ?thesis
  proof (cases "activeWorkers s - 1 = 0")
    case True
    then show ?thesis
      using assms(1) noWork(1,2)
      by (auto simp: noWork(3) noWorkAvailable_def Let_def genInv_def notifyGenerator_def)
  next
    case False
    then show ?thesis
      using genInv_unchanged [OF assms(1)] by (simp add: noWork(3) noWorkAvailable_def Let_def)
  qed
qed

lemma genInv_workerLoop:
  assumes "genInv s" "inSegment i s"
  shows "genInv (fst (workerLoop opts s))"
proof (rule workerLoop_rule [where P = "\<lambda>t. genInv t \<and> inSegment i t"])
  show "genInv s \<and> inSegment i s" using assms by simp
qed (auto intro: genInv_iteration inSegment_Continue)

lemma genInv_runWorker:
  assumes "genInv s" "inSegment i (s\<lparr>workers := (workers s)[i := Running]\<rparr>)"
  shows "genInv (runWorker opts i s)"
proof -
  have "genInv (s\<lparr>workers := (workers s)[i := Running]\<rparr>)"
    using genInv_unchanged [OF assms(1)] by simp
  then have "genInv (fst (workerLoop opts (s\<lparr>workers := (workers s)[i := Running]\<rparr>)))"
    using assms(2) by (rule genInv_workerLoop)
  then show ?thesis
    using genInv_unchanged by (simp add: runWorker_def Let_def)
qed


lemma inSegment_settleReaddir:
  assumes "atRest s" "i < length (workers s)" "workers s ! i = AwaitingReaddir d"
  shows "inSegment i
           ((settleReaddir io d s)\<lparr>workers := (workers (settleReaddir io d s))[i := Running]\<rparr>)"
proof (rule inSegment_settled [OF assms(1,2)])
  show "busy (workers s ! i)" using assms(3) by simp
qed (simp_all add: settleReaddir_def enqueueEntries_eq woke_def Let_def split: sum.splits)

lemma inSegment_settleReadFile:
  assumes "atRest s" "i < length (workers s)" "workers s ! i = AwaitingReadFile f"
  shows "inSegment i
           ((settleReadFile io f s)\<lparr>workers := (workers (settleReadFile io f s))[i := Running]\<rparr>)"
proof (rule inSegment_settled [OF assms(1,2)])
  show "busy (workers s ! i)" using assms(3) by simp
qed (simp_all add: settleReadFile_def woke_def split: sum.splits)

lemma genInv_generatorLoop: "genInv (generatorLoop s)"
  by (auto simp: genInv_def generatorLoop_def split: list.splits)

lemma genInv_settled:
  assumes "genInv s" "\<not> isDone s"
  shows "genInv (settleReaddir io d s)" "genInv (settleReadFile io f s)"
proof -
  have nr: "generator s \<noteq> GenReturned" using assms by (auto simp: genInv_def)
  show "genInv (settleReaddir io d s)"
  proof (cases "readdir io d")
    case (Inl e)
    then show ?thesis
      using genInv_notified [OF assms(1) nr] by (simp add: settleReaddir_def notifyGenerator_def)
  next
    case (Inr entries)
    then show ?thesis
      using genInv_unchanged [OF assms(1)]
      by (simp add: settleReaddir_def enqueueEntries_eq Let_def)
  qed
  show "genInv (settleReadFile io f s)"
  proof (cases "readFile io (path f)")
    case (Inl e)
    then show ?thesis
      using genInv_notified [OF assms(1) nr] by (simp add: settleReadFile_def notifyGenerator_def)
  next
    case (Inr buffer)
    then show ?thesis
      using genInv_unchanged [OF assms(1)] by (simp add: settleReadFile_def)
  qed
qed

lemma reachable_genInv:
  assumes "reachable opts io s" "generator s \<noteq> GenNotStarted" "validate opts = Inr n"
  shows "genInv s"
  using assms
proof (induction rule: started_induct)
  case start
  show ?case by (simp add: genInv_def afterStart_def initialState_def)
next
  case (generator s)
  show ?case by (rule genInv_generatorLoop)
next
  case (readdir s i d)
  have started: "generator s \<noteq> GenNotStarted"
    using reachable_NotStarted [OF readdir(1)] readdir(2) by (auto simp: initialState_def)
  have rest: "atRest s" using readdir(1) started assms(3) by (rule reachable_atRest)
  have "busy (workers s ! i)" using readdir(3) by simp
  then have "\<not> isDone s" using rest readdir(2) atRest_busy_not_done by blast
  then have "genInv (settleReaddir io d s)" using readdir(4) genInv_settled by blast
  then show ?case
    using inSegment_settleReaddir [OF rest readdir(2,3)] by (rule genInv_runWorker)
next
  case (readFile s i f)
  have started: "generator s \<noteq> GenNotStarted"
    using reachable_NotStarted [OF readFile(1)] readFile(2) by (auto simp: initialState_def)
  have rest: "atRest s" using readFile(1) started assms(3) by (rule reachable_atRest)
  have "busy (workers s ! i)" using readFile(3) by simp
  then have "\<not> isDone s" using rest readFile(2) atRest_busy_not_done by blast
  then have "genInv (settleReadFile io f s)" using readFile(4) genInv_settled by blast
  then show ?case
    using inSegment_settleReadFile [OF rest readFile(2,3)] by (rule genInv_runWorker)
next
  case (resume s i)
  have started: "generator s \<noteq> GenNotStarted"
    using reachable_NotStarted [OF resume(1)] resume(2) by (auto simp: initialState_def)
  have rest: "atRest s" using resume(1) started assms(3) by (rule reachable_atRest)
  have "genInv (s\<lparr>activeWorkers := activeWorkers s + 1\<rparr>)"
    using genInv_unchanged [OF resume(4)] by simp
  then show ?case
    using inSegment_resume [OF rest resume(2,3)] by (simp add: genInv_runWorker)
qed

lemma wake_eq_iff [simp]:
  "wake w = Running \<longleftrightarrow> w = Running"
  "wake w = Starting \<longleftrightarrow> w = Starting"
  "Running = wake w \<longleftrightarrow> w = Running"
  "Starting = wake w \<longleftrightarrow> w = Starting"
  by (cases w; simp)+

lemma idle_runWorker:
  assumes "i < length (workers s)"
    and "\<forall>j < length (workers s). j \<noteq> i \<longrightarrow> workers s ! j \<noteq> Running \<and> workers s ! j \<noteq> Starting"
  shows "idle (runWorker opts i s)"
proof -
  let ?s = "s\<lparr>workers := (workers s)[i := Running]\<rparr>"
  let ?r = "workerLoop opts ?s"
  have w: "woke (workers ?s) (workers (fst ?r))" by (rule workerLoop_workers)
  then have len: "length (workers (fst ?r)) = length (workers s)"
    using woke_length by fastforce
  have oc: "statusAfter (snd ?r) \<noteq> Running \<and> statusAfter (snd ?r) \<noteq> Starting"
    using workerLoop_not_Continue [of opts ?s] by (cases "snd ?r") simp_all
  have "workers (fst ?r) ! j \<noteq> Running \<and> workers (fst ?r) ! j \<noteq> Starting"
    if "j < length (workers s)" "j \<noteq> i" for j
  proof -
    have "workers (fst ?r) ! j = workers s ! j \<or> workers (fst ?r) ! j = wake (workers s ! j)"
      using w that by (auto simp: woke_def)
    then show ?thesis using assms(2) that by auto
  qed
  then have "(workers (fst ?r))[i := statusAfter (snd ?r)] ! j \<noteq> Running \<and>
      (workers (fst ?r))[i := statusAfter (snd ?r)] ! j \<noteq> Starting"
    if "j < length (workers s)" for j
    using that oc len by (cases "j = i") simp_all
  then show ?thesis
    using len by (simp add: idle_def runWorker_def Let_def)
qed

lemma idle_woke:
  assumes "idle s" "woke (workers s) (workers s')"
  shows "\<forall>j < length (workers s'). workers s' ! j \<noteq> Running \<and> workers s' ! j \<noteq> Starting"
  using assms by (auto simp: idle_def woke_def)

lemma settle_woke:
  "woke (workers s) (workers (settleReaddir io d s))"
  "woke (workers s) (workers (settleReadFile io f s))"
  by (simp_all add: settleReaddir_def settleReadFile_def enqueueEntries_eq woke_def Let_def
      split: sum.splits)

lemma reachable_idle:
  assumes "reachable opts io s" "generator s \<noteq> GenNotStarted" "validate opts = Inr n"
  shows "idle s"
  using assms
proof (induction rule: started_induct)
  case start
  have "0 < n" using validate_Inr [OF assms(3)] by simp
  then show ?case by (auto simp: idle_def afterStart_def nth_Cons split: nat.splits)
next
  case (generator s)
  then show ?case by (simp add: idle_def)
next
  case (readdir s i d)
  show ?case
    using idle_woke [OF readdir(4) settle_woke(1), of io d] readdir(2)
    by (intro idle_runWorker) simp_all
next
  case (readFile s i f)
  show ?case
    using idle_woke [OF readFile(4) settle_woke(2), of io f] readFile(2)
    by (intro idle_runWorker) simp_all
next
  case (resume s i)
  show ?case
    using resume(2,4) by (intro idle_runWorker) (simp_all add: idle_def)
qed


section \<open>Workers that leave their loop on an error\<close>

text \<open>
  A segment of a worker never lowers the number of workers that \<^verbatim>\<open>activeWorkers\<close>
  counts although they are gone, and raises it by one exactly when the worker leaves
  its loop on an error.
\<close>

lemma busyCount_suspend:
  assumes "i < length (workers s)" "workers s ! i = Running" "woke (workers s) (workers t)"
  shows "int (busyCount ((workers t)[i := w])) =
           int (busyCount (workers s)) - 1 + (if busy w then 1 else 0)"
proof -
  have "i < length (workers t)" "workers t ! i = Running"
    "busyCount (workers t) = busyCount (workers s)"
    using assms by (auto simp: woke_def)
  then show ?thesis using busyCount_update [of i "workers t" w] by simp
qed

lemma leak_suspend:
  assumes "i < length (workers s)" "workers s ! i = Running" "woke (workers s) (workers t)"
  shows "leak (suspend i (t, oc)) =
           activeWorkers t - int (busyCount (workers s)) + 1 -
             (if busy (statusAfter oc) then 1 else 0)"
  using busyCount_suspend [OF assms, of "statusAfter oc"] by (simp add: leak_def suspend_def)

lemma activeWorkers_stage [simp]:
  "activeWorkers (stageYieldCheck opts f s) = activeWorkers s"
  "activeWorkers (stageFileCheck opts g s) = activeWorkers s"
  "activeWorkers (fst (stageDirCheck opts d s)) = activeWorkers s"
  by (simp_all add: stageYieldCheck_def stageFileCheck_def stageDirCheck_def
      split: sum.splits bool.splits)

lemma leak_iteration:
  assumes "i < length (workers s)" "workers s ! i = Running"
  shows "leak (suspend i (workerIteration opts s)) =
           leak s + (if snd (workerIteration opts s) = Return \<and>
                        (truthy (error s) \<or> \<not> allQueuesEmpty s) then 1 else 0)"
proof (cases rule: workerIteration_cases [of s opts])
  case error
  then show ?thesis
    using leak_suspend [OF assms woke_refl, of Return] by (simp add: leak_def)
next
  case (yieldCheck f rest)
  let ?t = "stageYieldCheck opts f
    (called (CallShouldYieldFile (path f)) (s\<lparr>queueYieldCheck := rest\<rparr>))"
  have "woke (workers s) (workers ?t)" by simp
  from leak_suspend [OF assms this, of Continue] show ?thesis
    by (simp add: yieldCheck(3) leak_def)
next
  case (read fileCtx rest)
  let ?t = "called (CallReadFile (path fileCtx)) (s\<lparr>queueRead := rest\<rparr>)"
  have "woke (workers s) (workers ?t)" by simp
  from leak_suspend [OF assms this, of "AwaitReadFile fileCtx"] show ?thesis
    by (simp add: read(4) leak_def)
next
  case (fileCheck fileCtx rest)
  let ?t = "stageFileCheck opts fileCtx
    (called (CallShouldReadFile (path fileCtx)) (s\<lparr>queueFileCheck := rest\<rparr>))"
  have "woke (workers s) (workers ?t)"
    using workers_stageFileCheck
      [of "called (CallShouldReadFile (path fileCtx)) (s\<lparr>queueFileCheck := rest\<rparr>)"]
    by simp
  from leak_suspend [OF assms this, of Continue] show ?thesis
    by (simp add: fileCheck(5) leak_def)
next
  case (dirStat dirPath rest)
  let ?t = "called (CallReaddir dirPath) (s\<lparr>queueDirStat := rest\<rparr>)"
  have "woke (workers s) (workers ?t)" by simp
  from leak_suspend [OF assms this, of "AwaitReaddir dirPath"] show ?thesis
    by (simp add: dirStat(6) leak_def)
next
  case (dirCheck dirPath rest)
  let ?r = "stageDirCheck opts dirPath
    (called (CallShouldExploreDir dirPath) (s\<lparr>queueDirCheck := rest\<rparr>))"
  have w: "woke (workers s) (workers (fst ?r))"
    using workers_stageDirCheck
      [of "called (CallShouldExploreDir dirPath) (s\<lparr>queueDirCheck := rest\<rparr>)"]
    by simp
  have nq: "\<not> allQueuesEmpty s" using dirCheck(6) by (simp add: allQueuesEmpty_def)
  have oc: "snd ?r = Return \<or> snd ?r = Continue"
    by (simp add: stageDirCheck_def split: sum.splits bool.splits)
  have "suspend i ?r = suspend i (fst ?r, snd ?r)" by simp
  then show ?thesis
    using leak_suspend [OF assms w, of "snd ?r"] oc nq
    by (auto simp: dirCheck(7) leak_def)
next
  case noWork
  have w: "woke (workers s) (workers (fst (noWorkAvailable s)))"
    by (rule workers_noWorkAvailable)
  have oc: "\<not> busy (statusAfter (snd (noWorkAvailable s)))"
    "activeWorkers (fst (noWorkAvailable s)) = activeWorkers s - 1"
    by (simp_all add: noWorkAvailable_def Let_def)
  have "suspend i (noWorkAvailable s) = suspend i (fst (noWorkAvailable s), snd (noWorkAvailable s))"
    by simp
  then show ?thesis
    using leak_suspend [OF assms w, of "snd (noWorkAvailable s)"] oc noWork(1,2)
    by (simp add: noWork(3) leak_def)
qed

lemma suspend_iteration_Continue:
  assumes "i < length (workers s)" "workers s ! i = Running"
    "snd (workerIteration opts s) = Continue"
  shows "suspend i (workerIteration opts s) = fst (workerIteration opts s)"
proof -
  let ?r = "workerIteration opts s"
  have "i < length (workers (fst ?r)) \<and> workers (fst ?r) ! i = Running"
    using assms(1,2) by (rule workerIteration_Running)
  then have "suspend i (fst ?r, Continue) = fst ?r" by (simp add: suspend_Continue)
  moreover have "?r = (fst ?r, Continue)" using assms(3) by (simp add: prod_eq_iff)
  ultimately show ?thesis by simp
qed

lemma leak_workerLoop:
  assumes "i < length (workers s)" "workers s ! i = Running"
  shows "leak s \<le> leak (suspend i (workerLoop opts s))"
proof (rule workerLoop_rule
    [where P = "\<lambda>t. leak s \<le> leak t \<and> i < length (workers t) \<and> workers t ! i = Running"])
  show "leak s \<le> leak s \<and> i < length (workers s) \<and> workers s ! i = Running"
    using assms by simp
next
  fix t
  assume P: "leak s \<le> leak t \<and> i < length (workers t) \<and> workers t ! i = Running"
    and c: "snd (workerIteration opts t) = Continue"
  have "leak (fst (workerIteration opts t)) = leak t"
    using leak_iteration [of i t opts] suspend_iteration_Continue [of i t opts] P c by simp
  then show "leak s \<le> leak (fst (workerIteration opts t)) \<and>
      i < length (workers (fst (workerIteration opts t))) \<and>
      workers (fst (workerIteration opts t)) ! i = Running"
    using P workerIteration_Running [of i t opts] by simp
next
  fix t
  assume P: "leak s \<le> leak t \<and> i < length (workers t) \<and> workers t ! i = Running"
  then show "leak s \<le> leak (suspend i (workerIteration opts t))"
    using leak_iteration [of i t opts] by simp
qed

lemma leak_running:
  assumes "i < length (workers s)" "busy (workers s ! i)"
  shows "leak (s\<lparr>workers := (workers s)[i := Running]\<rparr>) = leak s"
  using busyCount_update [OF assms(1), of Running] assms(2) by (simp add: leak_def)

lemma leak_settle:
  "leak (settleReaddir io d s) = leak s"
  "leak (settleReadFile io f s) = leak s"
proof -
  have "busyCount (workers (settleReaddir io d s)) = busyCount (workers s)"
    "busyCount (workers (settleReadFile io f s)) = busyCount (workers s)"
    using settle_woke(1) [of s io d] settle_woke(2) [of s io f] by (auto simp: woke_def)
  then show "leak (settleReaddir io d s) = leak s" "leak (settleReadFile io f s) = leak s"
    by (simp_all add: leak_def)
qed

lemma leak_resumed:
  assumes "i < length (workers s)" "workers s ! i = Woken"
  shows "leak (s\<lparr>activeWorkers := activeWorkers s + 1, workers := (workers s)[i := Running]\<rparr>)
           = leak s"
  using busyCount_update [OF assms(1), of Running] assms(2) by (simp add: leak_def)

lemma leak_generatorLoop [simp]: "leak (generatorLoop s) = leak s"
  by (simp add: leak_def generatorLoop_def split: list.splits)

lemma step_started:
  assumes "step opts io a s = Some s'" "generator s \<noteq> GenNotStarted"
  shows "generator s' \<noteq> GenNotStarted"
proof (cases a)
  case Pull
  then show ?thesis using assms by (auto simp: generator_generatorLoop split: gstatus.splits)
next
  case ResumeGenerator
  then show ?thesis using assms by (auto simp: generator_generatorLoop split: gstatus.splits)
next
  case (SettleIO i)
  then obtain t where "s' = runWorker opts i t" "genWoke (generator s) (generator t)"
    using assms(1) settle_generator [of s] by (auto split: if_splits wstatus.splits)
  then have "genWoke (generator s) (generator s')"
    using runWorker_generator genWoke_trans by blast
  then show ?thesis using assms(2) by (auto simp: genWoke_def)
next
  case (ResumeWorker i)
  then have "s' = runWorker opts i (s\<lparr>activeWorkers := activeWorkers s + 1\<rparr>)"
    using assms(1) by (auto split: if_splits wstatus.splits)
  then have "genWoke (generator s) (generator s')"
    using runWorker_generator [of "s\<lparr>activeWorkers := activeWorkers s + 1\<rparr>" opts i] by simp
  then show ?thesis using assms(2) by (auto simp: genWoke_def)
qed

lemma leak_step:
  assumes "step opts io a s = Some s'" "generator s \<noteq> GenNotStarted"
  shows "leak s \<le> leak s'"
proof (cases a)
  case Pull
  then show ?thesis using assms by (auto split: gstatus.splits)
next
  case ResumeGenerator
  then show ?thesis using assms by (auto split: gstatus.splits)
next
  case (SettleIO i)
  then have i: "i < length (workers s)" using assms(1) by (auto split: if_splits)
  from SettleIO i assms(1) consider
    (listing) d where "workers s ! i = AwaitingReaddir d"
      and "s' = runWorker opts i (settleReaddir io d s)"
  | (reading) f where "workers s ! i = AwaitingReadFile f"
      and "s' = runWorker opts i (settleReadFile io f s)"
    by (auto split: wstatus.splits)
  then show ?thesis
  proof cases
    case listing
    let ?t = "settleReaddir io d s"
    have "busy (workers ?t ! i)"
      using settle_woke(1) [of s io d] i listing(1) by (auto simp: woke_def)
    then have "leak (?t\<lparr>workers := (workers ?t)[i := Running]\<rparr>) = leak s"
      using leak_running [of i ?t] i by (simp add: leak_settle)
    then show ?thesis
      using leak_workerLoop [of i "?t\<lparr>workers := (workers ?t)[i := Running]\<rparr>" opts] i
      by (simp add: listing(2) runWorker_suspend)
  next
    case reading
    let ?t = "settleReadFile io f s"
    have "busy (workers ?t ! i)"
      using settle_woke(2) [of s io f] i reading(1) by (auto simp: woke_def)
    then have "leak (?t\<lparr>workers := (workers ?t)[i := Running]\<rparr>) = leak s"
      using leak_running [of i ?t] i by (simp add: leak_settle)
    then show ?thesis
      using leak_workerLoop [of i "?t\<lparr>workers := (workers ?t)[i := Running]\<rparr>" opts] i
      by (simp add: reading(2) runWorker_suspend)
  qed
next
  case (ResumeWorker i)
  then have i: "i < length (workers s)" "workers s ! i = Woken"
    and s': "s' = runWorker opts i (s\<lparr>activeWorkers := activeWorkers s + 1\<rparr>)"
    using assms(1) by (auto split: if_splits wstatus.splits)
  show ?thesis
    using leak_workerLoop
      [of i "s\<lparr>activeWorkers := activeWorkers s + 1, workers := (workers s)[i := Running]\<rparr>" opts]
      leak_resumed [OF i] i(1)
    by (simp add: s' runWorker_suspend)
qed

lemma leak_run:
  assumes "run opts io as s = Some s'" "generator s \<noteq> GenNotStarted"
  shows "leak s \<le> leak s' \<and> generator s' \<noteq> GenNotStarted"
  using assms
proof (induction as arbitrary: s)
  case Nil
  then show ?case by simp
next
  case (Cons a as)
  then obtain t where t: "step opts io a s = Some t" "run opts io as t = Some s'"
    by (auto split: option.splits)
  have "generator t \<noteq> GenNotStarted" using t(1) Cons.prems(2) by (rule step_started)
  then have "leak t \<le> leak s' \<and> generator s' \<noteq> GenNotStarted" using Cons.IH t(2) by blast
  moreover have "leak s \<le> leak t" using t(1) Cons.prems(2) by (rule leak_step)
  ultimately show ?case by simp
qed

text \<open>With predicates that do not throw, a segment that starts with the slot empty leaves it empty.\<close>

lemma iteration_quiet:
  assumes "error s = Null" "nonThrowing opts"
  shows "error (fst (workerIteration opts s)) = Null \<and>
         (snd (workerIteration opts s) = Return \<longrightarrow> allQueuesEmpty s)"
proof (cases rule: workerIteration_cases [of s opts])
  case error
  then show ?thesis using assms(1) by simp
next
  case (yieldCheck f rest)
  obtain b where "yieldPredicate opts f = Inr b" using nonThrowingD [OF assms(2)] by blast
  then show ?thesis using assms(1)
    by (cases b) (simp_all add: yieldCheck(3) stageYieldCheck_def)
next
  case (read fileCtx rest)
  then show ?thesis using assms(1) by simp
next
  case (fileCheck fileCtx rest)
  obtain b where "shouldReadFile opts fileCtx = Inr b" using nonThrowingD [OF assms(2)] by blast
  then show ?thesis using assms(1)
    by (cases b) (simp_all add: fileCheck(5) stageFileCheck_def)
next
  case (dirStat dirPath rest)
  then show ?thesis using assms(1) by simp
next
  case (dirCheck dirPath rest)
  obtain b where "shouldExploreDir opts dirPath = Inr b" using nonThrowingD [OF assms(2)] by blast
  then show ?thesis using assms(1)
    by (cases b) (simp_all add: dirCheck(7) stageDirCheck_def)
next
  case noWork
  then show ?thesis using assms(1) by (simp add: noWorkAvailable_def Let_def)
qed

lemma leak_workerLoop_quiet:
  assumes "i < length (workers s)" "workers s ! i = Running"
    and "error s = Null" "nonThrowing opts"
  shows "leak (suspend i (workerLoop opts s)) = leak s"
proof (rule workerLoop_rule
    [where P = "\<lambda>t. leak t = leak s \<and> error t = Null \<and>
                     i < length (workers t) \<and> workers t ! i = Running"])
  show "leak s = leak s \<and> error s = Null \<and> i < length (workers s) \<and> workers s ! i = Running"
    using assms by simp
next
  fix t
  assume P: "leak t = leak s \<and> error t = Null \<and>
      i < length (workers t) \<and> workers t ! i = Running"
    and c: "snd (workerIteration opts t) = Continue"
  have "leak (fst (workerIteration opts t)) = leak t"
    using leak_iteration [of i t opts] suspend_iteration_Continue [of i t opts] P c by simp
  then show "leak (fst (workerIteration opts t)) = leak s \<and>
      error (fst (workerIteration opts t)) = Null \<and>
      i < length (workers (fst (workerIteration opts t))) \<and>
      workers (fst (workerIteration opts t)) ! i = Running"
    using P workerIteration_Running [of i t opts] iteration_quiet [of t opts] assms(4) by simp
next
  fix t
  assume P: "leak t = leak s \<and> error t = Null \<and>
      i < length (workers t) \<and> workers t ! i = Running"
  then show "leak (suspend i (workerIteration opts t)) = leak s"
    using leak_iteration [of i t opts] iteration_quiet [of t opts] assms(4) by auto
qed

text \<open>
  On a tree that can be explored, with predicates that do not throw, no worker leaves
  its loop on an error and the generator does not throw.
\<close>

lemma reachable_noLeak:
  assumes "reachable opts io s" "generator s \<noteq> GenNotStarted" "validate opts = Inr n"
    and "nonThrowing opts" "explorableTree opts io K (rootDir opts)"
  shows "leak s = 0 \<and> (\<forall>e. generator s \<noteq> GenThrew e)"
  using assms(1,2,3)
proof (induction rule: started_induct)
  case start
  have "0 < n" using validate_Inr [OF assms(3)] by simp
  moreover have "busyCount (AwaitingReaddir (rootDir opts) # replicate (n - 1) Parked) = 1"
    by (simp add: busyCount_def)
  ultimately show ?case by (simp add: leak_def afterStart_def)
next
  case (generator s)
  have "generator s \<noteq> GenNotStarted" using generator(2) by auto
  then have "walkInv opts io s" using generator(1) assms(3,4,5) reachable_walkInv by blast
  then have "error s = Null" by (simp add: walkInv_def)
  then have "\<forall>e. generator (generatorLoop s) \<noteq> GenThrew e"
    by (simp add: generatorLoop_def split: list.splits)
  then show ?case using generator(3) by simp
next
  case (readdir s i d)
  have started: "generator s \<noteq> GenNotStarted"
    using reachable_NotStarted [OF readdir(1)] readdir(2) by (auto simp: initialState_def)
  then have inv: "walkInv opts io s" using readdir(1) assms(3,4,5) reachable_walkInv by blast
  let ?t = "settleReaddir io d s"
  let ?u = "?t\<lparr>workers := (workers ?t)[i := Running]\<rparr>"
  have "walkInv opts io ?u" using inv assms(5) readdir(2,3) by (rule walkInv_settleReaddir)
  then have e: "error ?u = Null" by (simp add: walkInv_def)
  have "busy (workers ?t ! i)"
    using settle_woke(1) [of s io d] readdir(2,3) by (auto simp: woke_def)
  then have "leak ?u = leak s" using leak_running [of i ?t] readdir(2) by (simp add: leak_settle)
  then have "leak (runWorker opts i ?t) = 0"
    using leak_workerLoop_quiet [of i ?u opts] e assms(4) readdir(2,4)
    by (simp add: runWorker_suspend)
  moreover have "genWoke (generator s) (generator (runWorker opts i ?t))"
    using settle_generator(1) runWorker_generator genWoke_trans by blast
  ultimately show ?case using readdir(4) by (auto simp: genWoke_def)
next
  case (readFile s i f)
  have started: "generator s \<noteq> GenNotStarted"
    using reachable_NotStarted [OF readFile(1)] readFile(2) by (auto simp: initialState_def)
  then have inv: "walkInv opts io s" using readFile(1) assms(3,4,5) reachable_walkInv by blast
  let ?t = "settleReadFile io f s"
  let ?u = "?t\<lparr>workers := (workers ?t)[i := Running]\<rparr>"
  have "walkInv opts io ?u" using inv assms(5) readFile(2,3) by (rule walkInv_settleReadFile)
  then have e: "error ?u = Null" by (simp add: walkInv_def)
  have "busy (workers ?t ! i)"
    using settle_woke(2) [of s io f] readFile(2,3) by (auto simp: woke_def)
  then have "leak ?u = leak s" using leak_running [of i ?t] readFile(2) by (simp add: leak_settle)
  then have "leak (runWorker opts i ?t) = 0"
    using leak_workerLoop_quiet [of i ?u opts] e assms(4) readFile(2,4)
    by (simp add: runWorker_suspend)
  moreover have "genWoke (generator s) (generator (runWorker opts i ?t))"
    using settle_generator(2) runWorker_generator genWoke_trans by blast
  ultimately show ?case using readFile(4) by (auto simp: genWoke_def)
next
  case (resume s i)
  have started: "generator s \<noteq> GenNotStarted"
    using reachable_NotStarted [OF resume(1)] resume(2) by (auto simp: initialState_def)
  then have inv: "walkInv opts io s" using resume(1) assms(3,4,5) reachable_walkInv by blast
  let ?u = "s\<lparr>activeWorkers := activeWorkers s + 1, workers := (workers s)[i := Running]\<rparr>"
  have e: "error ?u = Null" using inv by (simp add: walkInv_def)
  have "leak (runWorker opts i (s\<lparr>activeWorkers := activeWorkers s + 1\<rparr>)) = 0"
    using leak_workerLoop_quiet [of i ?u opts] e assms(4) resume(2,4) leak_resumed [OF resume(2,3)]
    by (simp add: runWorker_suspend)
  moreover have "genWoke (generator s)
      (generator (runWorker opts i (s\<lparr>activeWorkers := activeWorkers s + 1\<rparr>)))"
    using runWorker_generator [of "s\<lparr>activeWorkers := activeWorkers s + 1\<rparr>" opts i] by simp
  ultimately show ?case using resume(4) by (auto simp: genWoke_def)
qed

lemma yielded_sound:
  assumes "reachable opts io s" "validate opts = Inr n"
    and "nonThrowing opts" "explorableTree opts io K (rootDir opts)"
  shows "path ` set (yielded s) \<subseteq> specPaths opts io"
proof (cases "generator s = GenNotStarted")
  case True
  then have "s = initialState opts" using assms(1) by (simp add: reachable_NotStarted)
  then show ?thesis by (simp add: initialState_def)
next
  case False
  with assms have "walkInv opts io s" using reachable_walkInv by blast
  then have "\<forall>t \<in> tasks s. okTask opts io t" by (simp add: walkInv_def)
  moreover have "ToDeliver r \<in> tasks s" if "r \<in> set (yielded s)" for r
    using that by (simp add: tasks_def)
  ultimately have "\<forall>r \<in> set (yielded s). okTask opts io (ToDeliver r)" by blast
  then show ?thesis by auto
qed

text \<open>A state in which nothing can run is the end of a complete walk.\<close>

lemma finished_walk:
  assumes "reachable opts io s" "validate opts = Inr n"
    and "nonThrowing opts" "explorableTree opts io K (rootDir opts)"
    and "\<forall>a. step opts io a s = None"
  shows "generator s = GenReturned \<and> path ` set (yielded s) = specPaths opts io"
proof -
  have started: "generator s \<noteq> GenNotStarted"
  proof
    assume "generator s = GenNotStarted"
    then have "step opts io Pull s \<noteq> None" by simp
    moreover have "step opts io Pull s = None" using assms(5) by (rule spec)
    ultimately show False by simp
  qed
  have rest: "atRest s" using assms(1) started assms(2) by (rule reachable_atRest)
  have gen: "genInv s" using assms(1) started assms(2) by (rule reachable_genInv)
  have idle: "idle s" using assms(1) started assms(2) by (rule reachable_idle)
  have inv: "walkInv opts io s" using assms(1) started assms(2,3,4) by (rule reachable_walkInv)
  have e: "error s = Null" using inv by (simp add: walkInv_def)
  have quiet: "workers s ! i = Parked \<or> workers s ! i = Exited" if i: "i < length (workers s)" for i
  proof -
    have "step opts io (SettleIO i) s = None" "step opts io (ResumeWorker i) s = None"
      using assms(5) by blast+
    moreover have "workers s ! i \<noteq> Running \<and> workers s ! i \<noteq> Starting"
      using idle i by (simp add: idle_def)
    ultimately show ?thesis using i by (cases "workers s ! i") simp_all
  qed
  have q: "\<forall>w \<in> set (workers s). w = Parked \<or> w = Exited"
  proof
    fix w assume "w \<in> set (workers s)"
    then obtain i where "i < length (workers s)" "workers s ! i = w"
      by (auto simp: in_set_conv_nth)
    then show "w = Parked \<or> w = Exited" using quiet by blast
  qed
  then have "\<forall>w \<in> set (workers s). \<not> busy w" by auto
  then have "busyCount (workers s) = 0" by (simp only: busyCount_none)
  moreover have quiet: "leak s = 0 \<and> (\<forall>e. generator s \<noteq> GenThrew e)"
    using assms(1) started assms(2,3,4) by (rule reachable_noLeak)
  ultimately have "activeWorkers s = 0" by (simp add: leak_def)
  then have fin: "isDone s" using rest by (auto simp: atRest_def)
  have "step opts io Pull s = None" "step opts io ResumeGenerator s = None"
    using assms(5) by blast+
  then have g: "generator s = GenReturned"
    using started gen fin quiet by (cases "generator s") (simp_all add: genInv_def)
  then have buffer: "outputBuffer s = []" using gen by (simp add: genInv_def)
  have "allQueuesEmpty s" using rest fin by (simp add: atRest_def)
  moreover have "pendingTasks (workers s) = {}" using q by (auto simp: pendingTasks_def)
  ultimately have t: "tasks s = ToDeliver ` set (yielded s)"
    using buffer by (simp add: tasks_def allQueuesEmpty_def)
  have "p \<in> path ` set (yielded s)" if "p \<in> specPaths opts io" for p
  proof -
    have "\<exists>t \<in> tasks s. covers opts io t p"
      using inv that unfolding walkInv_def by blast
    then obtain r where "r \<in> set (yielded s)" "covers opts io (ToDeliver r) p"
      unfolding t by blast
    then show ?thesis by auto
  qed
  moreover have "path ` set (yielded s) \<subseteq> specPaths opts io"
    using assms(1,2,3,4) by (rule yielded_sound)
  ultimately show ?thesis using g by blast
qed

section \<open>Every walk ends\<close>

lemma dirWeight_ge2: "2 \<le> dirWeight opts io k d"
  by (cases k) simp_all

lemma dirWeight_stable:
  "explorableTree opts io k d \<Longrightarrow> k \<le> k' \<Longrightarrow> dirWeight opts io k' d = dirWeight opts io k d"
proof (induction k arbitrary: d k')
  case 0
  then show ?case by simp
next
  case (Suc k)
  then obtain j where j: "k' = Suc j" "k \<le> j" by (cases k') auto
  from Suc.prems(1) obtain entries where e: "readdir io d = Inr entries"
    by (auto split: sum.splits)
  have "dirWeight opts io j (join io d (name entry)) = dirWeight opts io k (join io d (name entry))"
    if "entry \<in> set entries" "isDirectory entry"
      "shouldExploreDir opts (join io d (name entry)) = Inr True" for entry
    using Suc.prems(1) that Suc.IH [OF _ j(2)] by (auto simp: e list_all_iff)
  then show ?case
    by (auto simp: j(1) e intro!: arg_cong [where f = sum_list] map_cong)
qed

lemma statusWeight_wake [simp]: "statusWeight opts io k (wake w) = statusWeight opts io k w"
  by (cases w) simp_all

lemma statusWeight_comp_wake [simp]: "statusWeight opts io k \<circ> wake = statusWeight opts io k"
  by (rule ext) simp

lemma sum_statusWeight_wake [simp]:
  "sum_list (map (statusWeight opts io k) (map wake ws)) = sum_list (map (statusWeight opts io k) ws)"
  by (induction ws) simp_all

lemma sum_list_map_update:
  fixes f :: "'a \<Rightarrow> nat"
  assumes "i < length ws"
  shows "sum_list (map f (ws[i := w])) + f (ws ! i) = sum_list (map f ws) + f w"
  using assms
proof (induction ws arbitrary: i)
  case Nil
  then show ?case by simp
next
  case (Cons x xs)
  show ?case
  proof (cases i)
    case 0
    then show ?thesis by simp
  next
    case (Suc j)
    then have "j < length xs" using Cons.prems by simp
    from Cons.IH [OF this] show ?thesis using Suc by simp
  qed
qed

lemma potential_frame [simp]:
  "potential opts io k (notifyWorkers s) = potential opts io k s"
  "potential opts io k (notifyGenerator s) = potential opts io k s"
  "potential opts io k (called e s) = potential opts io k s"
  by (simp_all add: potential_def notifyGenerator_def)

lemma potential_suspend:
  assumes "i < length (workers s)" "workers s ! i = Running"
  shows "potential opts io k (suspend i (s, oc))
           = potential opts io k s + statusWeight opts io k (statusAfter oc)"
  using sum_list_map_update [OF assms(1), of "statusWeight opts io k" "statusAfter oc"] assms(2)
  by (simp add: potential_def suspend_def)


lemma potential_iteration:
  assumes "error s = Null" "nonThrowing opts"
  shows "potential opts io k (fst (workerIteration opts s))
           + statusWeight opts io k (statusAfter (snd (workerIteration opts s)))
           + progress (snd (workerIteration opts s)) \<le> potential opts io k s \<and>
         error (fst (workerIteration opts s)) = Null"
proof (cases rule: workerIteration_cases [of s opts])
  case error
  then show ?thesis using assms(1) by simp
next
  case (yieldCheck f rest)
  obtain b where "yieldPredicate opts f = Inr b" using nonThrowingD [OF assms(2)] by blast
  then show ?thesis
    using assms(1) yieldCheck(2)
    by (cases b) (simp_all add: yieldCheck(3) stageYieldCheck_def potential_def)
next
  case (read fileCtx rest)
  then show ?thesis using assms(1) by (simp add: potential_def)
next
  case (fileCheck fileCtx rest)
  obtain b where "shouldReadFile opts fileCtx = Inr b" using nonThrowingD [OF assms(2)] by blast
  then show ?thesis
    using assms(1) fileCheck(4)
    by (cases b) (simp_all add: fileCheck(5) stageFileCheck_def potential_def)
next
  case (dirStat dirPath rest)
  then show ?thesis
    using assms(1) dirWeight_ge2 [of opts io k dirPath] by (simp add: potential_def)
next
  case (dirCheck dirPath rest)
  obtain b where "shouldExploreDir opts dirPath = Inr b"
    using nonThrowingD [OF assms(2)] by blast
  then show ?thesis
    using assms(1) dirCheck(6)
    by (cases b) (simp_all add: dirCheck(7) stageDirCheck_def potential_def checkWeight_def)
next
  case noWork
  then show ?thesis
    using assms(1) by (simp add: noWorkAvailable_def Let_def potential_def notifyGenerator_def)
qed

lemma potential_workerLoop:
  assumes "error s = Null" "nonThrowing opts"
  shows "potential opts io k (fst (workerLoop opts s))
           + statusWeight opts io k (statusAfter (snd (workerLoop opts s)))
           \<le> potential opts io k s \<and>
         error (fst (workerLoop opts s)) = Null"
proof (rule workerLoop_rule
    [where P = "\<lambda>t. potential opts io k t \<le> potential opts io k s \<and> error t = Null"])
  show "potential opts io k s \<le> potential opts io k s \<and> error s = Null"
    using assms(1) by simp
next
  fix t assume "potential opts io k t \<le> potential opts io k s \<and> error t = Null"
  then show "potential opts io k (fst (workerIteration opts t)) \<le> potential opts io k s \<and>
      error (fst (workerIteration opts t)) = Null"
    using potential_iteration [of t opts io k] assms(2) by simp
next
  fix t assume "potential opts io k t \<le> potential opts io k s \<and> error t = Null"
  then show "potential opts io k (fst (workerIteration opts t))
      + statusWeight opts io k (statusAfter (snd (workerIteration opts t)))
      \<le> potential opts io k s \<and> error (fst (workerIteration opts t)) = Null"
    using potential_iteration [of t opts io k] assms(2) by simp
qed

lemma workerLoop_Running:
  assumes "i < length (workers s)" "workers s ! i = Running"
  shows "i < length (workers (fst (workerLoop opts s))) \<and>
         workers (fst (workerLoop opts s)) ! i = Running"
  using workerLoop_workers assms by (rule woke_Running)

text \<open>A segment of a worker never adds work.\<close>

lemma potential_runWorker:
  assumes "error s = Null" "nonThrowing opts" "i < length (workers s)"
  shows "potential opts io k (runWorker opts i s) + statusWeight opts io k (workers s ! i)
           \<le> potential opts io k s"
proof -
  let ?s = "s\<lparr>workers := (workers s)[i := Running]\<rparr>"
  let ?r = "workerLoop opts ?s"
  have run: "i < length (workers ?s)" "workers ?s ! i = Running" using assms(3) by simp_all
  have "potential opts io k ?s + statusWeight opts io k (workers s ! i) = potential opts io k s"
    using sum_list_map_update [OF assms(3), of "statusWeight opts io k" Running]
    by (simp add: potential_def)
  moreover have "potential opts io k (fst ?r) + statusWeight opts io k (statusAfter (snd ?r))
      \<le> potential opts io k ?s"
    using potential_workerLoop [of ?s opts io k] assms(1,2) by simp
  moreover have "potential opts io k (suspend i ?r)
      = potential opts io k (fst ?r) + statusWeight opts io k (statusAfter (snd ?r))"
    using potential_suspend [of i "fst ?r" opts io k "snd ?r"] workerLoop_Running [OF run, of opts]
    by simp
  ultimately show ?thesis by (simp add: runWorker_suspend)
qed


lemma rankOrder_iff:
  "((a', b', c', d'), (a, b, c, d)) \<in> rankOrder \<longleftrightarrow>
     a' < a \<or> a' = a \<and> (b' < b \<or> b' = b \<and> (c' < c \<or> c' = c \<and> d' < d))"
  by (simp add: rankOrder_def)

lemma rank_potential:
  "potential opts io k s' < potential opts io k s \<Longrightarrow>
   (rank opts io k s', rank opts io k s) \<in> rankOrder"
  by (simp add: rank_def rankOrder_iff)

lemma wf_rankOrder: "wf rankOrder"
  unfolding rankOrder_def by (intro wf_lex_prod wf_less_than)

lemma potential_workerLoop_progress:
  assumes "error s = Null" "nonThrowing opts" "progress (snd (workerIteration opts s)) = 1"
  shows "potential opts io k (fst (workerLoop opts s))
           + statusWeight opts io k (statusAfter (snd (workerLoop opts s)))
           < potential opts io k s"
proof -
  let ?r = "workerIteration opts s"
  note it = potential_iteration [OF assms(1,2), of io k]
  show ?thesis
  proof (cases "snd ?r = Continue")
    case True
    then have "workerLoop opts s = workerLoop opts (fst ?r)"
      by (subst workerLoop.simps) (simp add: Let_def)
    moreover have "potential opts io k (fst (workerLoop opts (fst ?r)))
        + statusWeight opts io k (statusAfter (snd (workerLoop opts (fst ?r))))
        \<le> potential opts io k (fst ?r)"
      using potential_workerLoop [of "fst ?r" opts io k] it assms(2) by simp
    ultimately show ?thesis using it assms(3) by simp
  next
    case False
    then have "workerLoop opts s = ?r"
      by (subst workerLoop.simps) (simp add: Let_def)
    then show ?thesis using it assms(3) by simp
  qed
qed

lemma childrenWeight:
  assumes "\<forall>entry \<in> set entries.
      isDirectory entry \<and> shouldExploreDir opts (join io d (name entry)) = Inr True \<longrightarrow>
      explorableTree opts io j (join io d (name entry))"
  shows "sum_list (map (checkWeight opts io (Suc j))
                     (map (\<lambda>e. join io d (name e)) (filter isDirectory entries)))
           + 5 * length (filter isFile entries)
         = sum_list
             (map (\<lambda>entry.
                     if isDirectory entry then
                       1 + (if shouldExploreDir opts (join io d (name entry)) = Inr True
                            then dirWeight opts io j (join io d (name entry)) else 0)
                     else if isFile entry then 5 else 0)
                entries)"
  using assms
proof (induction entries)
  case Nil
  show ?case by simp
next
  case (Cons entry entries)
  have x: "\<not> (isDirectory entry \<and> isFile entry)" by (simp add: isDirectory_def isFile_def)
  have "dirWeight opts io (Suc j) (join io d (name entry)) = dirWeight opts io j (join io d (name entry))"
    if "isDirectory entry" "shouldExploreDir opts (join io d (name entry)) = Inr True"
    using Cons.prems that by (intro dirWeight_stable) simp_all
  then show ?case
    using Cons.IH Cons.prems x by (auto simp: checkWeight_def simp del: dirWeight.simps)
qed

lemma potential_settleReaddir:
  assumes "explorableTree opts io k d"
  shows "potential opts io k (settleReaddir io d s) + 2 = potential opts io k s + dirWeight opts io k d"
proof -
  obtain j where j: "k = Suc j" using assms by (cases k) auto
  obtain entries where e: "readdir io d = Inr entries"
    using assms explorable_listing by blast
  have "\<forall>entry \<in> set entries.
      isDirectory entry \<and> shouldExploreDir opts (join io d (name entry)) = Inr True \<longrightarrow>
      explorableTree opts io j (join io d (name entry))"
    using assms by (auto simp: j e list_all_iff)
  from childrenWeight [OF this] show ?thesis
    by (simp add: j e settleReaddir_def enqueueEntries_eq Let_def potential_def comp_def)
qed

lemma potential_settleReadFile:
  assumes "readFile io (path f) = Inr buffer"
  shows "potential opts io k (settleReadFile io f s) = potential opts io k s + 2"
  using assms by (simp add: settleReadFile_def potential_def)


lemma generatorLoop_rank:
  assumes "generator s = GenSuspendedYield \<or> generator s = GenWoken"
  shows "(rank opts io k (generatorLoop s), rank opts io k s) \<in> rankOrder"
proof (cases "outputBuffer s")
  case Nil
  then show ?thesis
    using assms
    by (auto simp: generatorLoop_def rank_def rankOrder_iff potential_def split: option.splits)
next
  case (Cons f rest)
  then show ?thesis
    by (intro rank_potential) (simp add: generatorLoop_def potential_def)
qed

lemma firstPull_rank:
  assumes "validate opts = Inr n"
  shows "(rank opts io k (firstPull opts (initialState opts)), rank opts io k (initialState opts))
           \<in> rankOrder"
proof (rule rank_potential)
  have z: "sum_list (map (statusWeight opts io k) (replicate m Parked)) = 0" for m
    by (induction m) simp_all
  have "potential opts io k ((afterStart opts n n)\<lparr>generator := GenParked\<rparr>)
          = dirWeight opts io k (rootDir opts) - 1"
    by (simp add: potential_def afterStart_def initialState_def z)
  moreover have "potential opts io k (initialState opts) = dirWeight opts io k (rootDir opts)"
    by (simp add: potential_def initialState_def)
  ultimately show "potential opts io k (firstPull opts (initialState opts))
      < potential opts io k (initialState opts)"
    using dirWeight_ge2 [of opts io k "rootDir opts"]
    by (simp only: firstPull_valid [OF assms])
qed

lemma wokenCount_update:
  assumes "i < length ws" "ws ! i = Woken" "w \<noteq> Woken"
  shows "Suc (wokenCount (ws[i := w])) = wokenCount ws"
  using assms unfolding wokenCount_def
proof (induction ws arbitrary: i)
  case Nil
  then show ?case by simp
next
  case (Cons x xs)
  show ?case
  proof (cases i)
    case 0
    then show ?thesis using Cons.prems by simp
  next
    case (Suc j)
    then have "j < length xs" "xs ! j = Woken" using Cons.prems by simp_all
    from Cons.IH [OF this Cons.prems(3)] show ?thesis using Suc by simp
  qed
qed

lemma map_wake_id:
  assumes "\<forall>w \<in> set ws. w = Woken \<or> w = Exited"
  shows "map wake ws = ws"
  using assms by (induction ws) auto

text \<open>A woken worker that finds nothing to do parks again or, as the last one, sets \<^verbatim>\<open>isDone\<close>.\<close>

lemma resume_rank:
  assumes "atRest s" "error s = Null" "nonThrowing opts"
    "i < length (workers s)" "workers s ! i = Woken"
  shows "(rank opts io k (runWorker opts i (s\<lparr>activeWorkers := activeWorkers s + 1\<rparr>)),
          rank opts io k s) \<in> rankOrder"
proof -
  let ?s = "s\<lparr>activeWorkers := activeWorkers s + 1, workers := (workers s)[i := Running]\<rparr>"
  let ?it = "workerIteration opts ?s"
  let ?r = "workerLoop opts ?s"
  have run: "i < length (workers ?s)" "workers ?s ! i = Running" using assms(4) by simp_all
  have e: "error ?s = Null" using assms(2) by simp
  have same: "potential opts io k ?s = potential opts io k s"
    using sum_list_map_update [OF assms(4), of "statusWeight opts io k" Running] assms(5)
    by (simp add: potential_def)
  have s': "runWorker opts i (s\<lparr>activeWorkers := activeWorkers s + 1\<rparr>) = suspend i ?r"
    by (simp add: runWorker_suspend)
  have pot: "potential opts io k (suspend i ?r)
      = potential opts io k (fst ?r) + statusWeight opts io k (statusAfter (snd ?r))"
    using potential_suspend [of i "fst ?r" opts io k "snd ?r"] workerLoop_Running [OF run, of opts]
    by simp
  show ?thesis
  proof (cases "progress (snd ?it) = 1")
    case True
    then have "potential opts io k (suspend i ?r) < potential opts io k s"
      using potential_workerLoop_progress [OF e assms(3), of io k] pot same by simp
    then show ?thesis unfolding s' by (rule rank_potential)
  next
    case False
    have nowork: "allQueuesEmpty ?s \<and> ?it = noWorkAvailable ?s"
    proof (cases rule: workerIteration_cases [of ?s opts])
      case error
      then show ?thesis using assms(2) by simp
    next
      case (yieldCheck f rest)
      then show ?thesis using False by simp
    next
      case (read fileCtx rest)
      then show ?thesis using False by simp
    next
      case (fileCheck fileCtx rest)
      then show ?thesis using False by simp
    next
      case (dirStat dirPath rest)
      then show ?thesis using False by simp
    next
      case (dirCheck dirPath rest)
      obtain b where "shouldExploreDir opts dirPath = Inr b"
        using nonThrowingD [OF assms(3)] by blast
      then have "snd ?it = Continue"
        by (cases b) (simp_all add: dirCheck(7) stageDirCheck_def)
      then show ?thesis using False by simp
    next
      case noWork
      then show ?thesis by simp
    qed
    then have nc: "snd ?it \<noteq> Continue"
      by (simp add: noWorkAvailable_def Let_def)
    have rit: "?r = ?it"
      by (subst workerLoop.simps) (simp add: Let_def nc)
    have it: "?it = noWorkAvailable ?s" using nowork by (rule conjunct2)
    have r: "?r = noWorkAvailable ?s" by (simp only: rit it)
    have q: "allQueuesEmpty ?s" using nowork by (rule conjunct1)
    show ?thesis
    proof (cases "activeWorkers s = 0")
      case True
      have "suspend i (noWorkAvailable ?s) =
          notifyGenerator (s\<lparr>activeWorkers := 0, isDone := True,
            workers := (map wake (workers s))[i := Exited]\<rparr>)"
        using True q
        by (simp add: noWorkAvailable_def Let_def suspend_def notifyGenerator_def
            notifyWorkers_def map_update allQueuesEmpty_def)
      then have new: "suspend i ?r =
          notifyGenerator (s\<lparr>activeWorkers := 0, isDone := True,
            workers := (map wake (workers s))[i := Exited]\<rparr>)"
        by (simp only: r)
      have pnew: "potential opts io k (suspend i ?r) = potential opts io k s"
      proof -
        have "potential opts io k (s\<lparr>workers := (workers s)[i := Exited]\<rparr>)
            = potential opts io k s"
          using sum_list_map_update [OF assms(4), of "statusWeight opts io k" Exited] assms(5)
          by (simp add: potential_def)
        moreover have "(map wake (workers s))[i := Exited] = map wake ((workers s)[i := Exited])"
          by (simp add: map_update)
        ultimately show ?thesis
          unfolding new by (simp add: potential_def notifyGenerator_def)
      qed
      show ?thesis
      proof (cases "isDone s")
        case False
        then show ?thesis
          using pnew unfolding s' by (simp add: rank_def rankOrder_iff new notifyGenerator_def)
      next
        case d: True
        then have "\<forall>w \<in> set (workers s). w = Woken \<or> w = Exited"
          using assms(1) by (simp add: atRest_def)
        then have "map wake (workers s) = workers s" by (rule map_wake_id)
        moreover have "Suc (wokenCount ((workers s)[i := Exited])) = wokenCount (workers s)"
          using assms(4,5) by (intro wokenCount_update) simp_all
        ultimately show ?thesis
          using pnew d unfolding s'
          by (simp add: rank_def rankOrder_iff new notifyGenerator_def)
      qed
    next
      case False
      have "suspend i (noWorkAvailable ?s) = s\<lparr>workers := (workers s)[i := Parked]\<rparr>"
        using False by (simp add: noWorkAvailable_def Let_def suspend_def)
      then have new: "suspend i ?r = s\<lparr>workers := (workers s)[i := Parked]\<rparr>"
        by (simp only: r)
      have "Suc (wokenCount ((workers s)[i := Parked])) = wokenCount (workers s)"
        using assms(4,5) by (intro wokenCount_update) simp_all
      moreover have "potential opts io k (s\<lparr>workers := (workers s)[i := Parked]\<rparr>)
          = potential opts io k s"
        using sum_list_map_update [OF assms(4), of "statusWeight opts io k" Parked] assms(5)
        by (simp add: potential_def)
      ultimately show ?thesis
        unfolding s' new by (simp add: rank_def rankOrder_iff)
    qed
  qed
qed


lemma settle_rank:
  assumes "error t = Null" "nonThrowing opts" "i < length (workers t)"
    and "potential opts io k t + 1 = potential opts io k s + statusWeight opts io k (workers t ! i)"
  shows "(rank opts io k (runWorker opts i t), rank opts io k s) \<in> rankOrder"
proof (rule rank_potential)
  show "potential opts io k (runWorker opts i t) < potential opts io k s"
    using potential_runWorker [OF assms(1,2,3), of io k] assms(4) by simp
qed

text \<open>Every step of a walk over a finite tree, with predicates that do not throw, lowers the rank.\<close>

lemma step_rank:
  assumes "reachable opts io s" "validate opts = Inr n"
    and "nonThrowing opts" "explorableTree opts io K (rootDir opts)"
    and "step opts io a s = Some s'"
  shows "(rank opts io K s', rank opts io K s) \<in> rankOrder"
proof (cases "generator s = GenNotStarted")
  case True
  then have init: "s = initialState opts" using assms(1) by (simp add: reachable_NotStarted)
  then have "a = Pull" using assms(5) by (cases a) (simp_all add: initialState_def)
  then have "s' = firstPull opts (initialState opts)" using assms(5) init True by simp
  then show ?thesis using firstPull_rank [OF assms(2)] init by simp
next
  case False
  have rest: "atRest s" using assms(1) False assms(2) by (rule reachable_atRest)
  have inv: "walkInv opts io s" using assms(1) False assms(2,3,4) by (rule reachable_walkInv)
  have e: "error s = Null" using inv by (simp add: walkInv_def)
  have ok: "okTask opts io t" if "t \<in> tasks s" for t
    using inv that unfolding walkInv_def by blast
  show ?thesis
  proof (cases a)
    case Pull
    then have "generator s = GenSuspendedYield" "s' = generatorLoop s"
      using assms(5) False by (auto split: gstatus.splits)
    then show ?thesis using generatorLoop_rank by simp
  next
    case ResumeGenerator
    then have "generator s = GenWoken" "s' = generatorLoop s"
      using assms(5) by (auto split: gstatus.splits)
    then show ?thesis using generatorLoop_rank by simp
  next
    case (SettleIO i)
    then have i: "i < length (workers s)" using assms(5) by (auto split: if_splits)
    from SettleIO i assms(5) consider
      (listing) d where "workers s ! i = AwaitingReaddir d"
        and "s' = runWorker opts i (settleReaddir io d s)"
    | (reading) f where "workers s ! i = AwaitingReadFile f"
        and "s' = runWorker opts i (settleReadFile io f s)"
      by (auto split: wstatus.splits)
    then show ?thesis
    proof cases
      case listing
      have "ToList d \<in> tasks s"
        using pendingTasks_nth [OF i] listing(1) by (simp add: tasks_def)
      then have "explored opts io d" using ok by fastforce
      then have tree: "explorableTree opts io K d" using assms(4) explored_explorable by blast
      then obtain entries where entries: "readdir io d = Inr entries"
        using explorable_listing by blast
      have w: "workers (settleReaddir io d s) ! i = AwaitingReaddir d"
        using settle_woke(1) [of s io d] i listing(1) by (auto simp: woke_def)
      show ?thesis unfolding listing(2)
      proof (rule settle_rank [OF _ assms(3)])
        show "error (settleReaddir io d s) = Null"
          using e entries by (simp add: settleReaddir_error)
        show "i < length (workers (settleReaddir io d s))" using i by simp
        show "potential opts io K (settleReaddir io d s) + 1
            = potential opts io K s
              + statusWeight opts io K (workers (settleReaddir io d s) ! i)"
          using potential_settleReaddir [OF tree, where s = s] dirWeight_ge2 [of opts io K d]
          by (simp add: w)
      qed
    next
      case reading
      have "ToRead (path f) \<in> tasks s"
        using pendingTasks_nth [OF i] reading(1) by (simp add: tasks_def)
      then have "okTask opts io (ToRead (path f))" by (rule ok)
      then obtain d where d: "explored opts io d" "fileIn io d (path f)"
        and r: "shouldReadFile opts \<lparr>path = path f\<rparr> = Inr True" by auto
      have "explorableTree opts io K d" using assms(4) d(1) by (rule explored_explorable)
      then obtain buffer where buffer: "readFile io (path f) = Inr buffer"
        using explorable_readable d(2) r by blast
      have w: "workers (settleReadFile io f s) ! i = AwaitingReadFile f"
        using settle_woke(2) [of s io f] i reading(1) by (auto simp: woke_def)
      show ?thesis unfolding reading(2)
      proof (rule settle_rank [OF _ assms(3)])
        show "error (settleReadFile io f s) = Null"
          using e buffer by (simp add: settleReadFile_error)
        show "i < length (workers (settleReadFile io f s))" using i by simp
        show "potential opts io K (settleReadFile io f s) + 1
            = potential opts io K s
              + statusWeight opts io K (workers (settleReadFile io f s) ! i)"
          using potential_settleReadFile [OF buffer, where opts = opts and k = K and s = s]
          by (simp add: w)
      qed
    qed
  next
    case (ResumeWorker i)
    then have i: "i < length (workers s)" "workers s ! i = Woken"
      and "s' = runWorker opts i (s\<lparr>activeWorkers := activeWorkers s + 1\<rparr>)"
      using assms(5) by (auto split: if_splits wstatus.splits)
    then show ?thesis using resume_rank [OF rest e assms(3) i] by simp
  qed
qed

lemma walk_terminates:
  assumes "validate opts = Inr n" "nonThrowing opts" "explorableTree opts io K (rootDir opts)"
  shows "wf {(s', s). reachable opts io s \<and> (\<exists>a. step opts io a s = Some s')}"
proof (rule wf_subset)
  show "wf (inv_image rankOrder (rank opts io K))"
    using wf_rankOrder by (rule wf_inv_image)
  show "{(s', s). reachable opts io s \<and> (\<exists>a. step opts io a s = Some s')}
      \<subseteq> inv_image rankOrder (rank opts io K)"
    using step_rank [OF _ assms] by (auto simp: inv_image_def)
qed

lemma explored_workerCount:
  "explored (opts\<lparr>workerCount := w\<rparr>) io d \<longleftrightarrow> explored opts io d"
proof
  assume "explored (opts\<lparr>workerCount := w\<rparr>) io d"
  then show "explored opts io d"
  proof (induction rule: explored.induct)
    case root
    show ?case using explored.root [of opts io] by simp
  next
    case (sub d entries entry)
    then show ?case using explored.sub [of opts io d entries entry] by simp
  qed
next
  assume "explored opts io d"
  then show "explored (opts\<lparr>workerCount := w\<rparr>) io d"
  proof (induction rule: explored.induct)
    case root
    show ?case using explored.root [of "opts\<lparr>workerCount := w\<rparr>" io] by simp
  next
    case (sub d entries entry)
    then show ?case
      using explored.sub [of "opts\<lparr>workerCount := w\<rparr>" io d entries entry] by simp
  qed
qed

lemma specPaths_workerCount: "specPaths (opts\<lparr>workerCount := w\<rparr>) io = specPaths opts io"
  by (simp add: specPaths_def explored_workerCount yieldable_def yieldPredicate_def)

section \<open>The decisions of the generator and of the worker loop\<close>

lemma generatorLoop_decides:
  "case outputBuffer t of
     file # rest \<Rightarrow>
       yielded (generatorLoop t) = yielded t @ [file] \<and> outputBuffer (generatorLoop t) = rest \<and>
       generator (generatorLoop t) = GenSuspendedYield \<and> error (generatorLoop t) = error t
   | [] \<Rightarrow>
       yielded (generatorLoop t) = yielded t \<and>
       (if truthy (error t) then generator (generatorLoop t) = GenThrew (error t)
        else if isDone t then generator (generatorLoop t) = GenReturned
        else generator (generatorLoop t) = GenParked \<and>
             step opts io Pull (generatorLoop t) = None \<and>
             step opts io ResumeGenerator (generatorLoop t) = None \<and>
             step opts io ResumeGenerator (notifyGenerator (generatorLoop t))
               = Some (generatorLoop (generatorLoop t)))"
proof -
  have "generatorLoop (s\<lparr>generator := GenWoken\<rparr>) = generatorLoop s" for s
    by (simp add: generatorLoop_def split: list.splits)
  then show ?thesis
    by (simp add: generatorLoop_def notifyGenerator_def split: list.splits)
qed

lemma not_error_exit:
  assumes "\<not> truthy (error t)"
  shows "workerIteration opts t \<noteq> (t, Return)"
proof (cases rule: workerIteration_cases [of t opts])
  case error
  then show ?thesis using assms by simp
next
  case (yieldCheck f rest)
  then show ?thesis by simp
next
  case (read fileCtx rest)
  then show ?thesis by simp
next
  case (fileCheck fileCtx rest)
  then show ?thesis by simp
next
  case (dirStat dirPath rest)
  then show ?thesis by simp
next
  case (dirCheck dirPath rest)
  let ?r = "stageDirCheck opts dirPath
    (called (CallShouldExploreDir dirPath) (t\<lparr>queueDirCheck := rest\<rparr>))"
  have "queueDirCheck (fst ?r) = rest"
    by (simp add: stageDirCheck_def split: sum.splits bool.splits)
  then have "fst ?r \<noteq> t" using dirCheck(6) by auto
  then show ?thesis using dirCheck(7) by (auto simp: prod_eq_iff)
next
  case noWork
  have "activeWorkers (fst (noWorkAvailable t)) = activeWorkers t - 1"
    by (simp add: noWorkAvailable_def Let_def)
  then have "fst (noWorkAvailable t) \<noteq> t" by auto
  then show ?thesis using noWork(3) by (auto simp: prod_eq_iff)
qed

lemma workerLoop_Continue:
  "snd (workerIteration opts s) = Continue \<Longrightarrow>
   workerLoop opts s = workerLoop opts (fst (workerIteration opts s))"
  by (subst workerLoop.simps) (simp add: Let_def)

lemma workerLoop_stop:
  "snd (workerIteration opts s) \<noteq> Continue \<Longrightarrow> workerLoop opts s = workerIteration opts s"
  by (subst workerLoop.simps) (simp add: Let_def)

section \<open>After an error\<close>

text \<open>A step from a state whose error slot holds a truthy value.\<close>

lemma step_after_error:
  assumes "truthy (error s)" "generator s \<noteq> GenNotStarted" "step opts io a s = Some s'"
    and "\<forall>e'. pendingFailure io a s = Some e' \<longrightarrow> truthy e'"
  obtains
    (byGenerator) "a = Pull \<or> a = ResumeGenerator" "s' = generatorLoop s"
      "generator s = GenSuspendedYield \<or> generator s = GenWoken"
  | (byWorker) i t where "a = SettleIO i \<or> a = ResumeWorker i"
      "i < length (workers s)" "workers s ! i \<noteq> Exited"
      "woke (workers s) (workers t)" "s' = t\<lparr>workers := (workers t)[i := Exited]\<rparr>"
      "outputBuffer t = outputBuffer s" "calls t = calls s" "yielded t = yielded s"
      "error t = (case pendingFailure io a s of None \<Rightarrow> error s | Some e' \<Rightarrow> e')"
proof (cases a)
  case Pull
  then show ?thesis using assms(2,3) that(1) by (auto split: gstatus.splits)
next
  case ResumeGenerator
  then show ?thesis using assms(3) that(1) by (auto split: gstatus.splits)
next
  case (SettleIO i)
  then have i: "i < length (workers s)" using assms(3) by (auto split: if_splits)
  from SettleIO i assms(3) consider
    (listing) d where "workers s ! i = AwaitingReaddir d"
      and "s' = runWorker opts i (settleReaddir io d s)"
  | (reading) f where "workers s ! i = AwaitingReadFile f"
      and "s' = runWorker opts i (settleReadFile io f s)"
    by (auto split: wstatus.splits)
  then show ?thesis
  proof cases
    case listing
    let ?t = "settleReaddir io d s"
    have e: "error ?t = (case pendingFailure io a s of None \<Rightarrow> error s | Some e' \<Rightarrow> e')"
      using listing(1) SettleIO
      by (cases "readdir io d") (simp_all add: settleReaddir_error pendingFailure_def)
    then have "truthy (error ?t)" using assms(1,4) by (cases "pendingFailure io a s") simp_all
    then have "s' = ?t\<lparr>workers := (workers ?t)[i := Exited]\<rparr>"
      using listing(2) by (simp add: runWorker_error_set)
    moreover have "woke (workers s) (workers ?t)" by (rule settle_woke)
    ultimately show ?thesis
      using that(2) [of i ?t] SettleIO i listing(1) e by simp
  next
    case reading
    let ?t = "settleReadFile io f s"
    have e: "error ?t = (case pendingFailure io a s of None \<Rightarrow> error s | Some e' \<Rightarrow> e')"
      using reading(1) SettleIO
      by (cases "readFile io (path f)") (simp_all add: settleReadFile_error pendingFailure_def)
    then have "truthy (error ?t)" using assms(1,4) by (cases "pendingFailure io a s") simp_all
    then have "s' = ?t\<lparr>workers := (workers ?t)[i := Exited]\<rparr>"
      using reading(2) by (simp add: runWorker_error_set)
    moreover have "woke (workers s) (workers ?t)" by (rule settle_woke)
    ultimately show ?thesis
      using that(2) [of i ?t] SettleIO i reading(1) e by simp
  qed
next
  case (ResumeWorker i)
  let ?t = "s\<lparr>activeWorkers := activeWorkers s + 1\<rparr>"
  have i: "i < length (workers s)" "workers s ! i = Woken"
    and "s' = runWorker opts i ?t"
    using ResumeWorker assms(3) by (auto split: if_splits wstatus.splits)
  then have "s' = ?t\<lparr>workers := (workers ?t)[i := Exited]\<rparr>"
    using assms(1) by (simp add: runWorker_error_set)
  moreover have "pendingFailure io a s = None" using ResumeWorker by (simp add: pendingFailure_def)
  ultimately show ?thesis
    using that(2) [of i ?t] ResumeWorker i by simp
qed

lemma pendingFailure_truthy:
  "rejectsTruthy io \<Longrightarrow> pendingFailure io a s = Some e \<Longrightarrow> truthy e"
  by (auto simp: rejectsTruthy_def pendingFailure_def
      split: action.splits wstatus.splits sum.splits)

lemma liveCount_wake [simp]: "liveCount (map wake ws) = liveCount ws"
  unfolding liveCount_def by (induction ws) (simp_all add: wake_def)

lemma liveCount_woke: "woke ws ws' \<Longrightarrow> liveCount ws' = liveCount ws"
  by (auto simp: woke_def)

lemma liveCount_exit:
  "i < length ws \<Longrightarrow> ws ! i \<noteq> Exited \<Longrightarrow> liveCount (ws[i := Exited]) < liveCount ws"
  unfolding liveCount_def
proof (induction ws arbitrary: i)
  case Nil
  then show ?case by simp
next
  case (Cons x xs)
  then show ?case by (cases i) auto
qed

lemma reachable_error_started:
  assumes "reachable opts io s" "truthy (error s)"
  shows "generator s \<noteq> GenNotStarted \<and> (\<exists>n. validate opts = Inr n)"
proof -
  have "generator s \<noteq> GenNotStarted"
    using assms reachable_NotStarted [of opts io s] by (auto simp: initialState_def)
  moreover have "\<exists>n. validate opts = Inr n"
  proof (cases "validate opts")
    case (Inl x)
    then show ?thesis using assms reachable_invalid [of opts io s x] by (auto simp: initialState_def)
  qed simp
  ultimately show ?thesis by simp
qed

text \<open>Once a worker has left its loop on an error, \<^verbatim>\<open>isDone\<close> is never set.\<close>

lemma never_done_after_error:
  assumes "reachable opts io s" "truthy (error s)" "run opts io as s = Some s'"
  shows "\<not> isDone s'"
proof -
  obtain n where started: "generator s \<noteq> GenNotStarted" and v: "validate opts = Inr n"
    using reachable_error_started [OF assms(1,2)] by blast
  have "atRest s" using assms(1) started v by (rule reachable_atRest)
  then have "1 \<le> leak s" using assms(2) by (simp add: atRest_def leak_def)
  moreover have l: "leak s \<le> leak s' \<and> generator s' \<noteq> GenNotStarted"
    using assms(3) started by (rule leak_run)
  moreover have "reachable opts io s'" using assms(1,3) by (rule reachable_run)
  then have "atRest s'" using l v reachable_atRest by blast
  ultimately show ?thesis by (auto simp: atRest_def counted_def leak_def)
qed

lemma thrown_at_the_end:
  assumes "reachable opts io s" "truthy (error s)" "\<forall>a. step opts io a s = None"
  shows "\<exists>e. generator s = GenThrew e \<and> truthy e"
proof -
  obtain n where started: "generator s \<noteq> GenNotStarted" and v: "validate opts = Inr n"
    using reachable_error_started [OF assms(1,2)] by blast
  have rest: "atRest s" using assms(1) started v by (rule reachable_atRest)
  have gen: "genInv s" using assms(1) started v by (rule reachable_genInv)
  have "step opts io Pull s = None" "step opts io ResumeGenerator s = None"
    using assms(3) by blast+
  moreover have "\<not> isDone s" using rest assms(2) by (simp add: atRest_def counted_def)
  ultimately show ?thesis
    using started gen assms(2) by (cases "generator s") (simp_all add: genInv_def)
qed

lemma remaining_step:
  assumes "truthy (error s)" "generator s \<noteq> GenNotStarted" "step opts io a s = Some s'"
    and "rejectsTruthy io"
  shows "(remaining s', remaining s) \<in> less_than <*lex*> less_than \<and> truthy (error s') \<and>
         (outputBuffer s' = outputBuffer s \<or> outputBuffer s' = tl (outputBuffer s))"
proof -
  have p: "\<forall>e'. pendingFailure io a s = Some e' \<longrightarrow> truthy e'"
    using assms(4) pendingFailure_truthy by blast
  from assms(1,2,3) p show ?thesis
  proof (cases rule: step_after_error)
    case byGenerator
    have "genRank (generator s) = 2" using byGenerator(3) by auto
    then show ?thesis
      using assms(1) unfolding byGenerator(2)
      by (auto simp: remaining_def generatorLoop_def split: list.splits)
  next
    case (byWorker i t)
    have "i < length (workers t)" "workers t ! i \<noteq> Exited"
      using byWorker(2,3,4) by (auto simp: woke_def wake_def split: if_splits)
    then have "liveCount ((workers t)[i := Exited]) < liveCount (workers t)"
      by (rule liveCount_exit)
    moreover have "liveCount (workers t) = liveCount (workers s)"
      using byWorker(4) by (rule liveCount_woke)
    moreover have "truthy (error t)"
      using byWorker(9) assms(1) p by (cases "pendingFailure io a s") simp_all
    ultimately show ?thesis using byWorker(6) by (simp add: byWorker(5) remaining_def)
  qed
qed

lemma errors_end:
  assumes "rejectsTruthy io"
  shows "wf {(s', s). reachable opts io s \<and> truthy (error s) \<and> (\<exists>a. step opts io a s = Some s')}"
proof (rule wf_subset)
  show "wf (inv_image (less_than <*lex*> less_than) remaining)"
    by (intro wf_inv_image wf_lex_prod wf_less_than)
  show "{(s', s). reachable opts io s \<and> truthy (error s) \<and> (\<exists>a. step opts io a s = Some s')}
      \<subseteq> inv_image (less_than <*lex*> less_than) remaining"
  proof clarify
    fix s' s a
    assume "reachable opts io s" "truthy (error s)" "step opts io a s = Some s'"
    then show "(s', s) \<in> inv_image (less_than <*lex*> less_than) remaining"
      using remaining_step [of s opts io a s'] reachable_error_started [of opts io s] assms
      by (simp add: inv_image_def)
  qed
qed

lemma error_stays:
  assumes "rejectsTruthy io" "run opts io as s = Some s'"
    "truthy (error s)" "generator s \<noteq> GenNotStarted"
  shows "truthy (error s') \<and> (\<exists>k. outputBuffer s' = drop k (outputBuffer s))"
  using assms(2,3,4)
proof (induction as arbitrary: s)
  case Nil
  then have "s' = s" by simp
  then show ?case using Nil.prems(2) by (auto intro: exI [of _ 0])
next
  case (Cons a as)
  then obtain t where t: "step opts io a s = Some t" "run opts io as t = Some s'"
    by (auto split: option.splits)
  have st: "truthy (error t) \<and>
      (outputBuffer t = outputBuffer s \<or> outputBuffer t = tl (outputBuffer s))"
    using remaining_step [OF Cons.prems(2,3) t(1) assms(1)] by simp
  have "generator t \<noteq> GenNotStarted" using t(1) Cons.prems(3) by (rule step_started)
  then obtain k where k: "truthy (error s')" "outputBuffer s' = drop k (outputBuffer t)"
    using Cons.IH [OF t(2)] st by blast
  from st have "outputBuffer t = drop 0 (outputBuffer s) \<or> outputBuffer t = drop 1 (outputBuffer s)"
    by (simp add: drop_Suc)
  then have "\<exists>j. outputBuffer s' = drop j (outputBuffer s)"
    using k(2) by (metis drop_drop)
  then show ?case using k(1) by simp
qed

section \<open>Claims\<close>

text \<open>
  C8 as stated fails: the initial state has the root path in the directory-stat queue
  (priority 4), the directory-check queue is empty, and the root is listed even when
  \<^verbatim>\<open>shouldExploreDir\<close> rejects it.
\<close>

theorem root_seeded_for_dirCheck_counterexample:
  "\<not> (queueDirCheck (initialState denyAll) = [rootDir denyAll] \<and>
      queueDirStat (initialState denyAll) = []) \<and>
   shouldExploreDir denyAll (rootDir denyAll) = Inr False \<and>
   map_option calls (step denyAll emptyDisk Pull (initialState denyAll))
     = Some [CallReaddir (rootDir denyAll)]"
proof -
  have "validate denyAll = Inr 1"
    by (simp add: validate_default denyAll_def)
  then have "firstPull denyAll (initialState denyAll)
               = (afterStart denyAll 1 1)\<lparr>generator := GenParked\<rparr>"
    by (rule firstPull_valid)
  then show ?thesis
    by (simp add: afterStart_def) (simp add: initialState_def denyAll_def)
qed

text \<open>
  C8, amended. In the initial queue state the directory-stat queue (priority 4) holds
  exactly the root path and the other four stage queues are empty; the first segment
  of a valid run lists the root without evaluating \<^verbatim>\<open>shouldExploreDir\<close> on it.
\<close>

theorem root_seeded_for_dirStat:
  "queueDirStat (initialState opts) = [rootDir opts] \<and>
   queueDirCheck (initialState opts) = [] \<and>
   queueFileCheck (initialState opts) = [] \<and>
   queueRead (initialState opts) = [] \<and>
   queueYieldCheck (initialState opts) = [] \<and>
   (validate opts = Inr n \<longrightarrow>
      calls (firstPull opts (initialState opts)) = [CallReaddir (rootDir opts)] \<and>
      workers (firstPull opts (initialState opts)) ! 0 = AwaitingReaddir (rootDir opts))"
  by (simp add: firstPull_valid afterStart_def) (simp add: initialState_def)

theorem root_seeded_for_dirStat_witness:
  "validate denyAll = Inr 1 \<and>
   calls (firstPull denyAll (initialState denyAll)) = [CallReaddir ''/r''] \<and>
   workers (firstPull denyAll (initialState denyAll)) ! 0 = AwaitingReaddir ''/r''"
proof -
  have "validate denyAll = Inr 1"
    by (simp add: validate_default denyAll_def)
  then show ?thesis
    using root_seeded_for_dirStat [of denyAll 1] by (simp add: denyAll_def)
qed

text \<open>
  C4. In every state a run can be in between two segments, \<^verbatim>\<open>isDone\<close> is set if
  and only if the five stage queues are empty and \<^verbatim>\<open>activeWorkers\<close> is zero.
\<close>

theorem isDone_iff_queues_empty_and_no_active_worker:
  assumes "reachable opts io s"
  shows "isDone s \<longleftrightarrow> allQueuesEmpty s \<and> activeWorkers s = 0"
proof (cases "validate opts")
  case (Inl e)
  then have "s = initialState opts \<or> s = (initialState opts)\<lparr>generator := GenThrew e\<rparr>"
    using assms reachable_invalid by blast
  then show ?thesis by (auto simp: initialState_def allQueuesEmpty_def)
next
  case (Inr n)
  show ?thesis
  proof (cases "generator s = GenNotStarted")
    case True
    then have "s = initialState opts" using assms by (simp add: reachable_NotStarted)
    then show ?thesis by (simp add: initialState_def allQueuesEmpty_def)
  next
    case False
    with assms have "atRest s" using Inr by (rule reachable_atRest)
    then show ?thesis by (rule atRest_done_iff)
  qed
qed

theorem isDone_iff_queues_empty_and_no_active_worker_witness:
  "run denyAll emptyDisk [Pull, SettleIO 0] (initialState denyAll) = Some emptyRootDone \<and>
   isDone emptyRootDone \<and> allQueuesEmpty emptyRootDone \<and> activeWorkers emptyRootDone = 0"
proof -
  have r: "run denyAll emptyDisk [Pull, SettleIO 0] (initialState denyAll) = Some emptyRootDone"
    by code_simp
  then have "reachable denyAll emptyDisk emptyRootDone"
    using reachable.initial reachable_run by blast
  from isDone_iff_queues_empty_and_no_active_worker [OF this] r
  show ?thesis by (simp add: emptyRootDone_def)
qed

text \<open>
  C10. A directory entry that is neither a regular file nor a directory is skipped when
  its directory is listed: the queues after the listing are those of the listing
  without the entry. Unless its path is also the root or the path of a file or
  directory entry of some listing, no state of any run mentions it: it is in no stage
  queue, no pending read or listing, no predicate call, not in the output buffer and
  not among the yielded records.
\<close>

theorem other_entries_are_skipped:
  assumes "\<not> isDirectory entry" "\<not> isFile entry"
  shows "enqueueEntries io dirPath (before @ entry # after) s
           = enqueueEntries io dirPath (before @ after) s \<and>
         (reachable opts io t \<and> join io dirPath (name entry) \<notin> walkable opts io \<longrightarrow>
            join io dirPath (name entry) \<notin> mentioned t)"
  using assms enqueueEntries_skip reachable_mentioned by blast


theorem other_entries_are_skipped_witness:
  "enqueueEntries symlinkDisk ''/r''
     ([\<lparr>name = ''a'', kind = RegularFile\<rparr>] @ \<lparr>name = ''l'', kind = SymbolicLink\<rparr> # [])
     (initialState acceptAll)
     = enqueueEntries symlinkDisk ''/r'' ([\<lparr>name = ''a'', kind = RegularFile\<rparr>] @ [])
         (initialState acceptAll) \<and>
   run acceptAll symlinkDisk symlinkWalk (initialState acceptAll) = Some symlinkWalked \<and>
   ''/r/l'' \<notin> mentioned symlinkWalked"
proof -
  let ?l = "\<lparr>name = ''l'', kind = SymbolicLink\<rparr>"
  have k: "\<not> isDirectory ?l" "\<not> isFile ?l"
    by (simp_all add: isDirectory_def isFile_def)
  have r: "run acceptAll symlinkDisk symlinkWalk (initialState acceptAll) = Some symlinkWalked"
    by code_simp
  then have reach: "reachable acceptAll symlinkDisk symlinkWalked"
    using reachable.initial reachable_run by blast
  have "join symlinkDisk ''/r'' (name ?l) = ''/r/l''"
    by (simp add: symlinkDisk_def)
  moreover have "''/r/l'' \<notin> walkable acceptAll symlinkDisk"
    by (auto simp: walkable_def acceptAll_def symlinkDisk_def isDirectory_def isFile_def
        split: if_splits)
  ultimately show ?thesis
    using other_entries_are_skipped [OF k, of symlinkDisk "''/r''"
        "[\<lparr>name = ''a'', kind = RegularFile\<rparr>]" "[]" "initialState acceptAll"
        acceptAll symlinkWalked] r reach
    by simp
qed

text \<open>
  C1 as stated fails when \<^verbatim>\<open>shouldExploreDir\<close> rejects the root: the root is listed
  without being tested, so the file \<^verbatim>\<open>/r/a\<close> is yielded although its ancestor
  directory \<^verbatim>\<open>/r\<close> does not satisfy the predicate.
\<close>

theorem yielded_set_counterexample:
  "run denyAll symlinkDisk [Pull, SettleIO 0, SettleIO 0, ResumeGenerator, Pull]
      (initialState denyAll) = Some rejectedRootWalked \<and>
   generator rejectedRootWalked = GenReturned \<and>
   path ` set (yielded rejectedRootWalked) = {''/r/a''} \<and>
   shouldExploreDir denyAll ''/r'' = Inr False \<and>
   claimedPaths denyAll symlinkDisk = {}"
proof -
  have "run denyAll symlinkDisk [Pull, SettleIO 0, SettleIO 0, ResumeGenerator, Pull]
      (initialState denyAll) = Some rejectedRootWalked"
    by code_simp
  then show ?thesis
    by (simp add: rejectedRootWalked_def claimedPaths_def denyAll_def)
qed

text \<open>
  C1, amended. For every directory tree of finite height under the root whose explored
  directories can be listed and whose accepted files can be read, and for predicates
  that do not throw: every run of the walker is finite whatever the order in which
  workers, file-system operations and pulls are scheduled; a run that can go no further
  has returned normally; and the set of paths it has yielded is the set of files \<open>f\<close>
  under the root such that every ancestor directory of \<open>f\<close> below the root satisfies
  \<^verbatim>\<open>shouldExploreDir\<close> (the root itself is not tested), \<open>f\<close> satisfies
  \<^verbatim>\<open>shouldReadFile\<close> and the record of \<open>f\<close> satisfies \<^verbatim>\<open>shouldYieldFile\<close> (or that
  predicate is omitted). This holds for every valid \<^verbatim>\<open>workerCount\<close>, and the set does
  not depend on it.
\<close>

theorem yielded_set_is_expected_set:
  assumes "validate opts = Inr n" "nonThrowing opts" "explorableTree opts io K (rootDir opts)"
  shows "wf {(s', s). reachable opts io s \<and> (\<exists>a. step opts io a s = Some s')} \<and>
         (\<forall>s. reachable opts io s \<longrightarrow>
            path ` set (yielded s) \<subseteq> specPaths opts io \<and>
            ((\<forall>a. step opts io a s = None) \<longrightarrow>
               generator s = GenReturned \<and> path ` set (yielded s) = specPaths opts io)) \<and>
         specPaths (opts\<lparr>workerCount := w\<rparr>) io = specPaths opts io"
proof (intro conjI allI impI)
  show "wf {(s', s). reachable opts io s \<and> (\<exists>a. step opts io a s = Some s')}"
    using assms by (rule walk_terminates)
next
  fix s assume "reachable opts io s"
  then show "path ` set (yielded s) \<subseteq> specPaths opts io"
    using assms by (rule yielded_sound)
next
  fix s assume "reachable opts io s" "\<forall>a. step opts io a s = None"
  then have "generator s = GenReturned \<and> path ` set (yielded s) = specPaths opts io"
    using finished_walk assms by blast
  then show "generator s = GenReturned" "path ` set (yielded s) = specPaths opts io"
    by simp_all
next
  show "specPaths (opts\<lparr>workerCount := w\<rparr>) io = specPaths opts io"
    by (rule specPaths_workerCount)
qed

theorem yielded_set_is_expected_set_witness:
  "validate scenario = Inr 2 \<and> nonThrowing scenario \<and>
   explorableTree scenario scenarioDisk 2 (rootDir scenario) \<and>
   run scenario scenarioDisk scenarioWalk (initialState scenario) = Some scenarioWalked \<and>
   generator scenarioWalked = GenReturned \<and>
   path ` set (yielded scenarioWalked) = specPaths scenario scenarioDisk \<and>
   path ` set (yielded scenarioWalked) = {''/r/a.txt'', ''/r/sub/c.txt''}"
proof -
  have v: "validate scenario = Inr 2"
    using validate_positive_integer [of scenario 2] by (simp add: scenario_def MAX_WORKER_COUNT_def)
  have nt: "nonThrowing scenario"
    by (auto simp: nonThrowing_def scenario_def yieldPredicate_def)
  have tree: "explorableTree scenario scenarioDisk 2 (rootDir scenario)"
    by code_simp
  have r: "run scenario scenarioDisk scenarioWalk (initialState scenario) = Some scenarioWalked"
    by code_simp
  then have reach: "reachable scenario scenarioDisk scenarioWalked"
    using reachable.initial reachable_run by blast
  have fin: "\<forall>a. step scenario scenarioDisk a scenarioWalked = None"
  proof
    fix a
    have "i < 2 \<Longrightarrow> [Exited, Exited] ! i = Exited" for i :: nat
      by (cases i) simp_all
    then show "step scenario scenarioDisk a scenarioWalked = None"
      by (cases a) (simp_all add: scenarioWalked_def)
  qed
  have "generator scenarioWalked = GenReturned \<and>
      path ` set (yielded scenarioWalked) = specPaths scenario scenarioDisk"
    using yielded_set_is_expected_set [OF v nt tree] reach fin by blast
  then show ?thesis
    using v nt tree r by (simp add: scenarioWalked_def)
qed

text \<open>
  C5 as stated fails: the call of \<^verbatim>\<open>exploreFilesAsync\<close> with \<^verbatim>\<open>workerCount\<close> 0 does
  not fail. It returns the iterator, in which nothing has run yet.
\<close>

theorem synchronous_failure_counterexample:
  "workerCount (withWorkerCount (Finite 0)) = Some (Finite 0) \<and>
   exploreFilesAsync (withWorkerCount (Finite 0))
     = Inr (initialState (withWorkerCount (Finite 0))) \<and>
   exploreFilesAsync (withWorkerCount (Finite 0)) \<noteq> Inl invalidWorkerCount \<and>
   generator (initialState (withWorkerCount (Finite 0))) = GenNotStarted"
  by (simp add: exploreFilesAsync_def withWorkerCount_def initialState_def)

text \<open>
  C5, amended. For a \<^verbatim>\<open>workerCount\<close> that is 0, negative or not an integer (a
  fraction, NaN or an infinity) the call returns the iterator without failing, and
  nothing but the first pull can run. The first pull, which runs the start of the
  generator body, ends with the error of line 94 thrown: no call of \<^verbatim>\<open>fs.readdir\<close>,
  \<^verbatim>\<open>fs.readFile\<close> or a predicate has been made, no worker has been started, and
  nothing can run afterwards.
\<close>

theorem first_pull_rejects_workerCount:
  assumes "workerCount opts = Some w"
    and "w = NaN \<or> w = Infinity \<or> w = NegInfinity \<or>
         (\<exists>q. w = Finite q \<and> (q = 0 \<or> q < 0 \<or> q \<notin> \<int>))"
  shows "exploreFilesAsync opts = Inr (initialState opts) \<and>
         generator (initialState opts) = GenNotStarted \<and>
         calls (initialState opts) = [] \<and>
         (\<forall>a. a \<noteq> Pull \<longrightarrow> step opts io a (initialState opts) = None) \<and>
         step opts io Pull (initialState opts) = Some (thrownBeforeStart opts) \<and>
         generator (thrownBeforeStart opts) = GenThrew invalidWorkerCount \<and>
         calls (thrownBeforeStart opts) = [] \<and>
         workers (thrownBeforeStart opts) = [] \<and>
         (\<forall>a. step opts io a (thrownBeforeStart opts) = None)"
proof -
  have "validate opts = Inl invalidWorkerCount"
    using assms by (rule validate_rejects)
  then have "step opts io Pull (initialState opts) = Some (thrownBeforeStart opts)"
    by (simp add: firstPull_def thrownBeforeStart_def initialState_def)
  moreover have "step opts io a (thrownBeforeStart opts) = None" for a
    by (cases a) (simp_all add: thrownBeforeStart_def initialState_def)
  moreover have "step opts io a (initialState opts) = None" if "a \<noteq> Pull" for a
    using that by (cases a) (simp_all add: initialState_def)
  ultimately show ?thesis
    by (simp add: thrownBeforeStart_def initialState_def exploreFilesAsync_def)
qed

theorem first_pull_rejects_workerCount_witness:
  "exploreFilesAsync (withWorkerCount (Finite (1 / 2)))
     = Inr (initialState (withWorkerCount (Finite (1 / 2)))) \<and>
   step (withWorkerCount (Finite (1 / 2))) emptyDisk Pull
      (initialState (withWorkerCount (Finite (1 / 2))))
     = Some (thrownBeforeStart (withWorkerCount (Finite (1 / 2)))) \<and>
   generator (thrownBeforeStart (withWorkerCount (Finite (1 / 2)))) = GenThrew invalidWorkerCount \<and>
   calls (thrownBeforeStart (withWorkerCount (Finite (1 / 2)))) = []"
proof -
  have "workerCount (withWorkerCount (Finite (1 / 2))) = Some (Finite (1 / 2))"
    by (simp add: withWorkerCount_def)
  moreover have "Finite (1 / 2) = NaN \<or> Finite (1 / 2) = Infinity \<or> Finite (1 / 2) = NegInfinity \<or>
      (\<exists>q. Finite (1 / 2) = Finite q \<and> (q = 0 \<or> q < 0 \<or> q \<notin> \<int>))"
    using half_not_integer by blast
  ultimately show ?thesis
    using first_pull_rejects_workerCount
      [of "withWorkerCount (Finite (1 / 2))" "Finite (1 / 2)" emptyDisk]
    by blast
qed

text \<open>
  C6. For a positive integer \<^verbatim>\<open>workerCount\<close> the validation gives
  \<open>min workerCount 8\<close>, and the first pull starts that many workers: the first one
  takes the root and waits for its listing, the others find nothing and park.
  In every later state of the run that many workers exist, each of them started, so
  never more than 8 workers run; before the first pull there is none.
\<close>

theorem workers_started_is_min_workerCount_8:
  assumes "workerCount opts = Some (Finite (of_nat k))" "0 < k"
  shows "validate opts = Inr (min k 8) \<and>
         (\<exists>s'. step opts io Pull (initialState opts) = Some s' \<and>
            workers s' = AwaitingReaddir (rootDir opts) # replicate (min k 8 - 1) Parked \<and>
            calls s' = [CallReaddir (rootDir opts)] \<and> activeWorkers s' = 1) \<and>
         (\<forall>s. reachable opts io s \<longrightarrow>
            (if generator s = GenNotStarted then workers s = []
             else length (workers s) = min k 8 \<and> Starting \<notin> set (workers s)) \<and>
            busyCount (workers s) \<le> 8)"
proof -
  have v: "validate opts = Inr (min k 8)"
    using validate_positive_integer [OF assms] by (simp add: MAX_WORKER_COUNT_def)
  have "step opts io Pull (initialState opts) = Some (firstPull opts (initialState opts))"
    by (simp add: initialState_def)
  then have first: "\<exists>s'. step opts io Pull (initialState opts) = Some s' \<and>
      workers s' = AwaitingReaddir (rootDir opts) # replicate (min k 8 - 1) Parked \<and>
      calls s' = [CallReaddir (rootDir opts)] \<and> activeWorkers s' = 1"
    unfolding firstPull_valid [OF v] by (simp add: afterStart_def)
  have later: "(if generator s = GenNotStarted then workers s = []
       else length (workers s) = min k 8 \<and> Starting \<notin> set (workers s)) \<and>
      busyCount (workers s) \<le> 8"
    if r: "reachable opts io s" for s
  proof (cases "generator s = GenNotStarted")
    case True
    then have "s = initialState opts" using r by (simp add: reachable_NotStarted)
    then show ?thesis using True by (simp add: initialState_def busyCount_def)
  next
    case False
    have len: "length (workers s) = min k 8" using r False v by (rule reachable_length_workers)
    have "idle s" using r False v by (rule reachable_idle)
    then have "Starting \<notin> set (workers s)" by (auto simp: idle_def in_set_conv_nth)
    moreover have "busyCount (workers s) \<le> length (workers s)" by (simp add: busyCount_def)
    ultimately show ?thesis using False len by simp
  qed
  show ?thesis using v first later by blast
qed

theorem workers_started_is_min_workerCount_8_witness:
  "validate (withWorkerCount (Finite 100)) = Inr 8 \<and>
   (\<exists>s'. step (withWorkerCount (Finite 100)) emptyDisk Pull
            (initialState (withWorkerCount (Finite 100))) = Some s' \<and>
      workers s' = [AwaitingReaddir ''/r'', Parked, Parked, Parked, Parked, Parked, Parked, Parked])"
proof -
  let ?opts = "withWorkerCount (Finite 100)"
  have w: "workerCount ?opts = Some (Finite (of_nat 100))"
    by (simp add: withWorkerCount_def)
  have "replicate (7 :: nat) Parked = [Parked, Parked, Parked, Parked, Parked, Parked, Parked]"
    by (simp add: numeral_eq_Suc)
  then show ?thesis
    using workers_started_is_min_workerCount_8 [OF w, of emptyDisk]
    by (auto simp: withWorkerCount_def denyAll_def)
qed







text \<open>
  C3 as stated fails: when the listing of the root is rejected, the error slot is set,
  every worker that runs again exits, the generator throws, and \<^verbatim>\<open>isDone\<close> is still
  false in the last state of the run, from which nothing can run.
\<close>

theorem error_then_done_counterexample:
  "run throwing brokenDisk [Pull, SettleIO 0, ResumeGenerator] (initialState throwing)
     = Some rootListingThrown \<and>
   error rootListingThrown = Error ''EACCES'' \<and>
   generator rootListingThrown = GenThrew (Error ''EACCES'') \<and>
   \<not> isDone rootListingThrown \<and>
   step throwing brokenDisk Pull rootListingThrown = None \<and>
   step throwing brokenDisk ResumeGenerator rootListingThrown = None \<and>
   step throwing brokenDisk (SettleIO 0) rootListingThrown = None \<and>
   step throwing brokenDisk (SettleIO 1) rootListingThrown = None \<and>
   step throwing brokenDisk (ResumeWorker 0) rootListingThrown = None \<and>
   step throwing brokenDisk (ResumeWorker 1) rootListingThrown = None"
  by code_simp

text \<open>
  C3, amended. From a state of a run in which the error slot holds a truthy value (as
  every \<^verbatim>\<open>Error\<close> object is), \<^verbatim>\<open>isDone\<close> is never set, however the run goes on. In
  a step whose file-system operation, if it fails, rejects with a truthy value, the
  slot stays truthy and no record is appended to the output buffer: a worker's segment
  leaves the buffer as it is and the generator only pops from it. When nothing can run
  any more, the generator has thrown a truthy value. When every rejection of the file
  system is truthy, the slot stays truthy for the rest of the run, the buffer only
  loses records from its front, and the run ends after finitely many steps.
\<close>

theorem error_stops_appends_and_isDone_is_never_set:
  assumes "reachable opts io s" "truthy (error s)"
  shows "(\<forall>as s'. run opts io as s = Some s' \<longrightarrow> \<not> isDone s') \<and>
         (\<forall>a s'. step opts io a s = Some s' \<and>
                  (\<forall>e. pendingFailure io a s = Some e \<longrightarrow> truthy e) \<longrightarrow>
            truthy (error s') \<and>
            (case a of
               SettleIO i \<Rightarrow> outputBuffer s' = outputBuffer s
             | ResumeWorker i \<Rightarrow> outputBuffer s' = outputBuffer s
             | _ \<Rightarrow> outputBuffer s' = outputBuffer s \<or> outputBuffer s' = tl (outputBuffer s))) \<and>
         ((\<forall>a. step opts io a s = None) \<longrightarrow> (\<exists>e. generator s = GenThrew e \<and> truthy e)) \<and>
         (rejectsTruthy io \<longrightarrow>
            (\<forall>as s'. run opts io as s = Some s' \<longrightarrow>
               truthy (error s') \<and> (\<exists>k. outputBuffer s' = drop k (outputBuffer s))) \<and>
            wf {(s', s). reachable opts io s \<and> truthy (error s) \<and>
                  (\<exists>a. step opts io a s = Some s')})"
proof (intro conjI allI impI)
  fix as s' assume "run opts io as s = Some s'"
  with assms show "\<not> isDone s'" by (rule never_done_after_error)
next
  fix a s'
  assume a: "step opts io a s = Some s' \<and> (\<forall>e. pendingFailure io a s = Some e \<longrightarrow> truthy e)"
  have started: "generator s \<noteq> GenNotStarted"
    using reachable_error_started [OF assms] by simp
  have st: "step opts io a s = Some s'"
    and p: "\<forall>e. pendingFailure io a s = Some e \<longrightarrow> truthy e" using a by simp_all
  from assms(2) started st p
  have "truthy (error s') \<and>
      (case a of
         SettleIO i \<Rightarrow> outputBuffer s' = outputBuffer s
       | ResumeWorker i \<Rightarrow> outputBuffer s' = outputBuffer s
       | _ \<Rightarrow> outputBuffer s' = outputBuffer s \<or> outputBuffer s' = tl (outputBuffer s))"
  proof (cases rule: step_after_error)
    case byGenerator
    then show ?thesis using assms(2)
      by (auto simp: generatorLoop_def split: list.splits)
  next
    case (byWorker i t)
    have "truthy (error t)"
      using byWorker(9) assms(2) p by (cases "pendingFailure io a s") simp_all
    then show ?thesis using byWorker(1,5,6) by auto
  qed
  then show "truthy (error s')"
    and "case a of
           SettleIO i \<Rightarrow> outputBuffer s' = outputBuffer s
         | ResumeWorker i \<Rightarrow> outputBuffer s' = outputBuffer s
         | _ \<Rightarrow> outputBuffer s' = outputBuffer s \<or> outputBuffer s' = tl (outputBuffer s)"
    by simp_all
next
  assume "\<forall>a. step opts io a s = None"
  with assms show "\<exists>e. generator s = GenThrew e \<and> truthy e" by (rule thrown_at_the_end)
next
  fix as s' assume r: "rejectsTruthy io" "run opts io as s = Some s'"
  have started: "generator s \<noteq> GenNotStarted"
    using reachable_error_started [OF assms] by simp
  have "truthy (error s') \<and> (\<exists>k. outputBuffer s' = drop k (outputBuffer s))"
    using r assms(2) started by (rule error_stays)
  then show "truthy (error s')" and "\<exists>k. outputBuffer s' = drop k (outputBuffer s)"
    by simp_all
next
  assume "rejectsTruthy io"
  then show "wf {(s', s). reachable opts io s \<and> truthy (error s) \<and>
      (\<exists>a. step opts io a s = Some s')}"
    by (rule errors_end)
qed

theorem error_stops_appends_and_isDone_is_never_set_witness:
  "run throwing brokenDisk [Pull, SettleIO 0] (initialState throwing) = Some rootListingRejected \<and>
   error rootListingRejected = Error ''EACCES'' \<and>
   step throwing brokenDisk ResumeGenerator rootListingRejected = Some rootListingThrown \<and>
   truthy (error rootListingThrown) \<and> \<not> isDone rootListingThrown \<and>
   outputBuffer rootListingThrown = outputBuffer rootListingRejected \<and>
   generator rootListingThrown = GenThrew (Error ''EACCES'')"
proof -
  have r: "run throwing brokenDisk [Pull, SettleIO 0] (initialState throwing)
             = Some rootListingRejected"
    by code_simp
  then have reach: "reachable throwing brokenDisk rootListingRejected"
    using reachable.initial reachable_run by blast
  have e: "truthy (error rootListingRejected)"
    by (simp add: rootListingRejected_def)
  have st: "step throwing brokenDisk ResumeGenerator rootListingRejected = Some rootListingThrown"
    by code_simp
  then have "run throwing brokenDisk [ResumeGenerator] rootListingRejected = Some rootListingThrown"
    by simp
  moreover have "\<forall>e. pendingFailure brokenDisk ResumeGenerator rootListingRejected = Some e
      \<longrightarrow> truthy e"
    by (simp add: pendingFailure_def)
  ultimately have "\<not> isDone rootListingThrown \<and> truthy (error rootListingThrown)"
    using error_stops_appends_and_isDone_is_never_set [OF reach e] st by blast
  then show ?thesis
    using r st by (simp add: rootListingRejected_def rootListingThrown_def)
qed

text \<open>
  C2 as stated fails. Two workers have a read in flight while the consumer is busy
  with the record it was given; the read of \<^verbatim>\<open>/r/b\<close> fails and sets the slot, then
  the read of \<^verbatim>\<open>/r/c\<close> fails and overwrites it; the next pull throws the second
  error.
\<close>

theorem first_error_wins_counterexample:
  "map_option error (run acceptAll twoUnreadable (take 6 slowConsumer) (initialState acceptAll))
     = Some (Error ''EACCES b'') \<and>
   map_option error (run acceptAll twoUnreadable (take 7 slowConsumer) (initialState acceptAll))
     = Some (Error ''EACCES c'') \<and>
   map_option generator (run acceptAll twoUnreadable slowConsumer (initialState acceptAll))
     = Some (GenThrew (Error ''EACCES c''))"
  by code_simp

text \<open>
  C2, amended. The slot can be written more than once, and the last writer wins. Take
  a state in which the slot holds a truthy value (as every \<^verbatim>\<open>Error\<close> object is),
  and a step whose file-system operation, if it fails, rejects with a truthy value.
  The step leaves the slot as it is unless it settles a file-system operation that was
  already in flight and that fails: then the value it rejects with overwrites the
  slot. Either way the slot is truthy afterwards, the segment calls no predicate and
  starts no file-system operation, and a worker that runs it exits. A pull, or the
  continuation of the generator, that finds the buffer empty throws the value the slot
  holds at that moment, the one recorded last and not the first; with a record in the
  buffer it yields that record.
\<close>

theorem error_slot_last_writer_wins:
  assumes "truthy (error s)" "generator s \<noteq> GenNotStarted" "step opts io a s = Some s'"
    and "\<forall>e'. pendingFailure io a s = Some e' \<longrightarrow> truthy e'"
  shows "error s' = (case pendingFailure io a s of None \<Rightarrow> error s | Some e' \<Rightarrow> e') \<and>
         truthy (error s') \<and> calls s' = calls s \<and>
         (\<forall>i. a = SettleIO i \<or> a = ResumeWorker i \<longrightarrow> workers s' ! i = Exited) \<and>
         (a = Pull \<or> a = ResumeGenerator \<longrightarrow>
            (case outputBuffer s of
               [] \<Rightarrow> generator s' = GenThrew (error s)
             | file # rest \<Rightarrow>
                 generator s' = GenSuspendedYield \<and> yielded s' = yielded s @ [file]))"
  using assms
proof (cases rule: step_after_error)
  case byGenerator
  have "pendingFailure io a s = None"
    using byGenerator(1) by (auto simp: pendingFailure_def)
  then show ?thesis
    using byGenerator assms(1) by (auto simp: generatorLoop_def split: list.splits)
next
  case (byWorker i t)
  have "truthy (error t)"
    using byWorker(9) assms(1,4) by (cases "pendingFailure io a s") simp_all
  moreover have "i < length (workers t)" using byWorker(2,4) by (simp add: woke_length)
  ultimately show ?thesis using byWorker by auto
qed

theorem error_slot_last_writer_wins_witness:
  "\<exists>s s'. run acceptAll twoUnreadable (take 6 slowConsumer) (initialState acceptAll) = Some s \<and>
     error s = Error ''EACCES b'' \<and>
     step acceptAll twoUnreadable (SettleIO 0) s = Some s' \<and>
     error s' = Error ''EACCES c'' \<and> calls s' = calls s \<and> workers s' ! 0 = Exited"
proof -
  obtain s where s: "run acceptAll twoUnreadable (take 6 slowConsumer) (initialState acceptAll) = Some s"
    and e: "error s = Error ''EACCES b''"
    and g: "generator s \<noteq> GenNotStarted"
    and w: "workers s ! 0 = AwaitingReadFile \<lparr>path = ''/r/c''\<rparr>" "0 < length (workers s)"
  proof -
    have "run acceptAll twoUnreadable (take 6 slowConsumer) (initialState acceptAll) = Some
      \<lparr>queueYieldCheck = [], queueRead = [], queueFileCheck = [],
       queueDirStat = [], queueDirCheck = [], outputBuffer = [],
       activeWorkers = 2, isDone = False, error = Error ''EACCES b'',
       workers = [AwaitingReadFile \<lparr>path = ''/r/c''\<rparr>, Exited],
       generator = GenSuspendedYield,
       calls =
         [CallReaddir ''/r'', CallShouldReadFile ''/r/a'',
          CallReadFile ''/r/a'', CallShouldReadFile ''/r/b'',
          CallReadFile ''/r/b'', CallShouldYieldFile ''/r/a'',
          CallShouldReadFile ''/r/c'', CallReadFile ''/r/c''],
       yielded = [\<lparr>path = ''/r/a'', contents = createFileReader ''A''\<rparr>]\<rparr>"
      by code_simp
    then show ?thesis using that by simp
  qed
  obtain s' where s': "step acceptAll twoUnreadable (SettleIO 0) s = Some s'"
    using w by simp
  have p: "pendingFailure twoUnreadable (SettleIO 0) s = Some (Error ''EACCES c'')"
    using w by (simp add: pendingFailure_def twoUnreadable_def)
  have t: "truthy (error s)" using e by simp
  have "error s' = Error ''EACCES c'' \<and> calls s' = calls s \<and> workers s' ! 0 = Exited"
    using error_slot_last_writer_wins [OF t g s'] p by simp
  then show ?thesis using s e s' by blast
qed

end
